theory Spec2Isabelle
  imports Complex_Main "HOL-Library.Word" "HOL-Library.Log_Nat"
begin

section \<open>Numeric conventions\<close>

text \<open>
  The program computes with NumPy arrays. Integer arrays of dtype int16 are modelled as
  \<open>16 word\<close> (arithmetic wraps, \<open>sint\<close> reads the signed value). In \<open>get_pixels_hu\<close> and
  \<open>resample\<close> the float32 and float64 numbers are modelled with their IEEE 754 rounding,
  infinities, NaN and signed zero (see \<open>fl\<close> and \<open>round_to\<close> below). \<open>normalize\<close> is modelled
  over the exact real numbers.
\<close>

type_synonym int16 = "16 word"

definition trunc :: "real \<Rightarrow> int" where
  \<comment> \<open>the C cast of a float to an integer: rounding towards zero\<close>
  "trunc x = (if 0 \<le> x then \<lfloor>x\<rfloor> else \<lceil>x\<rceil>)"

definition np_round :: "real \<Rightarrow> int" where
  \<comment> \<open>\<open>np.round\<close> (and Python's \<open>round\<close>): halves go to the even neighbour\<close>
  "np_round x =
     (let f = \<lfloor>x\<rfloor>; d = x - of_int f
      in if d < 1 / 2 then f else if 1 / 2 < d then f + 1 else if even f then f else f + 1)"

datatype error = ValueError | OverflowError | IndexError

section \<open>normalize\<close>

definition normalize_voxel :: "real \<Rightarrow> real \<Rightarrow> real \<Rightarrow> real" where
  "normalize_voxel x min_bound max_bound =
     (let y = (x - min_bound) / (max_bound - min_bound);
          y1 = (if 1 < y then 1 else y);
          y2 = (if y1 < 0 then 0 else y1)
      in y2)"

definition normalize_im :: "real list \<Rightarrow> real \<Rightarrow> real \<Rightarrow> real list" where
  \<comment> \<open>the source's \<open>normalize\<close>; the array is flattened, every operation being elementwise\<close>
  "normalize_im img min_bound max_bound = map (\<lambda>x. normalize_voxel x min_bound max_bound) img"

section \<open>largest\_label\_volume\<close>

fun np_argmax :: "nat list \<Rightarrow> nat" where
  \<comment> \<open>\<open>np.argmax\<close>: the first index of a maximal element (the source calls it on a
      non-empty array only)\<close>
  "np_argmax [] = 0"
| "np_argmax (c # cs) = (if \<forall>d \<in> set cs. d \<le> c then 0 else Suc (np_argmax cs))"

definition np_unique :: "int list \<Rightarrow> int list \<times> nat list" where
  \<comment> \<open>\<open>np.unique(im, return_counts=True)\<close> on the flattened array: the sorted distinct
      values and how often each occurs\<close>
  "np_unique im =
     (let vals = sort (remdups im) in (vals, map (count_list im) vals))"

definition largest_label_volume :: "int list \<Rightarrow> int \<Rightarrow> int option" where
  "largest_label_volume im bg =
     (let (vals, counts) = np_unique im;
          counts' = map snd (filter (\<lambda>(v, c). v \<noteq> bg) (zip vals counts));
          vals' = filter (\<lambda>v. v \<noteq> bg) vals
      in if 0 < length counts' then Some (vals' ! np_argmax counts') else None)"

section \<open>IEEE 754 floating point\<close>

text \<open>
  A float: a finite number, negative zero, an infinity or NaN. \<open>Fin 0\<close> is \<open>+0.0\<close>.
  NumPy divides by zero without raising (it warns and yields an infinity or NaN), so the
  non-finite values are part of what the program computes.
\<close>

datatype fl = Fin real | NZero | PInf | NInf | NaN

record format =
  precision :: nat
  emin :: int
  emax :: int

definition binary32 :: format where
  "binary32 = \<lparr>precision = 24, emin = - 126, emax = 127\<rparr>"

definition binary64 :: format where
  "binary64 = \<lparr>precision = 53, emin = - 1022, emax = 1023\<rparr>"

definition expo :: "real \<Rightarrow> int" where
  \<comment> \<open>the binary exponent of a positive number: \<open>2 ^ e \<le> x < 2 ^ (e + 1)\<close>\<close>
  "expo x =
     (if 1 \<le> x then bitlen \<lfloor>x\<rfloor> - 1
      else (let k = bitlen \<lfloor>1 / x\<rfloor> - 1
            in if x * 2 powi k = 1 then - k else - k - 1))"

definition round_to :: "format \<Rightarrow> real \<Rightarrow> fl" where
  \<comment> \<open>rounding of a real number to the nearest number of the format, halves to the even
      significand; the quantum is fixed below \<open>2 ^ emin\<close> (subnormal numbers); a result of
      magnitude \<open>2 ^ (emax + 1)\<close> or more is an infinity\<close>
  "round_to fmt x =
     (if x = 0 then Fin 0
      else
        let e = max (expo \<bar>x\<bar>) (emin fmt);
            u = 2 powi (e - (int (precision fmt) - 1));
            y = of_int (np_round (x / u)) * u
        in if 2 powi (emax fmt + 1) \<le> \<bar>y\<bar> then (if 0 < x then PInf else NInf)
           else if y = 0 then (if 0 < x then Fin 0 else NZero)
           else Fin y)"

fun fneg :: "fl \<Rightarrow> bool" where
  \<comment> \<open>the sign bit\<close>
  "fneg (Fin a) = (a < 0)"
| "fneg NZero = True"
| "fneg PInf = False"
| "fneg NInf = True"
| "fneg NaN = False"

fun fval :: "fl \<Rightarrow> real" where
  "fval (Fin a) = a"
| "fval x = 0"

definition is_zero :: "fl \<Rightarrow> bool" where
  "is_zero x = (x = Fin 0 \<or> x = NZero)"

definition is_inf :: "fl \<Rightarrow> bool" where
  "is_inf x = (x = PInf \<or> x = NInf)"

definition fzero :: "bool \<Rightarrow> fl" where
  "fzero negative = (if negative then NZero else Fin 0)"

definition finf :: "bool \<Rightarrow> fl" where
  "finf negative = (if negative then NInf else PInf)"

definition fmul :: "fl \<Rightarrow> fl \<Rightarrow> fl" where
  \<comment> \<open>the float64 product\<close>
  "fmul x y =
     (if x = NaN \<or> y = NaN then NaN
      else if (is_zero x \<and> is_inf y) \<or> (is_inf x \<and> is_zero y) then NaN
      else if is_inf x \<or> is_inf y then finf (fneg x \<noteq> fneg y)
      else if is_zero x \<or> is_zero y then fzero (fneg x \<noteq> fneg y)
      else round_to binary64 (fval x * fval y))"

definition fdiv :: "fl \<Rightarrow> fl \<Rightarrow> fl" where
  \<comment> \<open>the float64 quotient; a finite non-zero number divided by a zero is an infinity
      whose sign is the product of the two signs\<close>
  "fdiv x y =
     (if x = NaN \<or> y = NaN then NaN
      else if (is_zero x \<and> is_zero y) \<or> (is_inf x \<and> is_inf y) then NaN
      else if is_inf x \<or> is_zero y then finf (fneg x \<noteq> fneg y)
      else if is_zero x \<or> is_inf y then fzero (fneg x \<noteq> fneg y)
      else round_to binary64 (fval x / fval y))"

fun fround :: "fl \<Rightarrow> fl" where
  \<comment> \<open>\<open>np.round\<close> on a float array: the result is a float again; a negative number that
      rounds to zero gives \<open>-0.0\<close>\<close>
  "fround (Fin a) = (if np_round a = 0 \<and> a < 0 then NZero else Fin (of_int (np_round a)))"
| "fround x = x"

definition fits_int16 :: "int \<Rightarrow> bool" where
  "fits_int16 n = (- 32768 \<le> n \<and> n \<le> 32767)"

definition fits_int32 :: "int \<Rightarrow> bool" where
  "fits_int32 n = (- 2147483648 \<le> n \<and> n \<le> 2147483647)"

fun float_to_int16 :: "fl \<Rightarrow> int16" where
  \<comment> \<open>NumPy's cast float64 -> int16, the C cast: truncation towards zero, of which the low
      16 bits are kept. For a number outside the int32 range, an infinity or NaN the C cast
      is undefined; the conversion instruction of x86-64 then yields \<open>0x80000000\<close>, whose
      low 16 bits are 0.\<close>
  "float_to_int16 (Fin a) = (if fits_int32 (trunc a) then word_of_int (trunc a) else 0)"
| "float_to_int16 x = 0"

section \<open>get\_pixels\_hu\<close>

text \<open>
  A slice of a DICOM series, with the attributes \<open>get_pixels_hu\<close> reads. The 2-D pixel
  array is kept flattened (row-major); its length stands for its shape. The rescale
  attributes are the decimal numbers of the file; pydicom hands each over as a Python
  float, the float64 nearest to it.
\<close>

record dicom_slice =
  pixel_array :: "int list"
  RescaleIntercept :: real
  RescaleSlope :: real

definition np_stack :: "int list list \<Rightarrow> error + int list list" where
  \<comment> \<open>\<open>np.stack\<close> raises ValueError on an empty list and on arrays of different shapes\<close>
  "np_stack arrays =
     (if arrays = [] \<or> (\<exists>a \<in> set arrays. length a \<noteq> length (hd arrays))
      then Inl ValueError else Inr arrays)"

definition rescale_slice :: "dicom_slice list \<Rightarrow> int16 list list \<Rightarrow> nat \<Rightarrow> int16 list list" where
  \<comment> \<open>the body of the loop over \<open>slice_number\<close>: the int16 values are converted to
      float64 (exactly) and multiplied by the slope in float64; storing the float64 array
      into a slice of the int16 array casts it, and \<open>+=\<close> on int16 wraps\<close>
  "rescale_slice slices img slice_number =
     (let intercept = round_to binary64 (RescaleIntercept (slices ! slice_number));
          slope = round_to binary64 (RescaleSlope (slices ! slice_number));
          img1 = img[slice_number :=
                   map (\<lambda>v. float_to_int16 (fmul slope (Fin (of_int (sint v)))))
                     (img ! slice_number)];
          img2 = img1[slice_number := img1 ! slice_number];
          img3 = img2[slice_number :=
                   map (\<lambda>v. v + float_to_int16 intercept) (img2 ! slice_number)]
      in img3)"

definition get_pixels_hu :: "dicom_slice list \<Rightarrow> error + int16 list list" where
  "get_pixels_hu slices =
     (case np_stack (map pixel_array slices) of
        Inl e \<Rightarrow> Inl e
      | Inr stacked \<Rightarrow>
          Inr (foldl (rescale_slice slices) (map (map word_of_int) stacked)
                 [0..<length slices]))"

definition hu_round_once :: "dicom_slice list \<Rightarrow> int list list" where
  \<comment> \<open>the conversion as the specification words it: \<open>value * slope + intercept\<close> in
      floating point, rounded once at the end\<close>
  "hu_round_once slices =
     map (\<lambda>s. map (\<lambda>v. np_round (of_int v * RescaleSlope s + RescaleIntercept s))
                (pixel_array s)) slices"

definition hu_row :: "dicom_slice \<Rightarrow> int16 list \<Rightarrow> int16 list" where
  \<comment> \<open>what one pass of the loop body leaves in a slice of the int16 array\<close>
  "hu_row s row =
     map (\<lambda>v. float_to_int16 (fmul (round_to binary64 (RescaleSlope s)) (Fin (of_int (sint v))))
              + float_to_int16 (round_to binary64 (RescaleIntercept s))) row"

definition wrap_int16 :: "int \<Rightarrow> int" where
  \<comment> \<open>the signed value of the low 16 bits\<close>
  "wrap_int16 n = (n + 32768) mod 65536 - 32768"

section \<open>resample\<close>

type_synonym 'a triple = "'a \<times> 'a \<times> 'a"

fun map3 :: "('a \<Rightarrow> 'b) \<Rightarrow> 'a triple \<Rightarrow> 'b triple" where
  "map3 f (a, b, c) = (f a, f b, f c)"

fun zip3 :: "('a \<Rightarrow> 'b \<Rightarrow> 'c) \<Rightarrow> 'a triple \<Rightarrow> 'b triple \<Rightarrow> 'c triple" where
  \<comment> \<open>an elementwise operation on two arrays of three elements\<close>
  "zip3 f (a, b, c) (x, y, z) = (f a x, f b y, f c z)"

definition of_shape :: "nat \<Rightarrow> fl" where
  \<comment> \<open>a dimension of \<open>image.shape\<close>, an integer, converted to float64 for the arithmetic
      with a float array\<close>
  "of_shape n = round_to binary64 (of_nat n)"

fun int_of_float :: "fl \<Rightarrow> error + int" where
  \<comment> \<open>Python's \<open>int(round(x))\<close> on a float: OverflowError on an infinity, ValueError on NaN\<close>
  "int_of_float (Fin a) = Inr (np_round a)"
| "int_of_float NZero = Inr 0"
| "int_of_float PInf = Inl OverflowError"
| "int_of_float NInf = Inl OverflowError"
| "int_of_float NaN = Inl ValueError"

fun zoom_shape :: "nat triple \<Rightarrow> fl triple \<Rightarrow> error + nat triple" where
  \<comment> \<open>the shape of the array \<open>scipy.ndimage.zoom(input, zoom)\<close> returns:
      \<open>int(round(n * z))\<close> along each axis, computed in axis order; allocating an output
      with a negative dimension raises ValueError. The interpolated voxel values are not
      modelled.\<close>
  "zoom_shape (n0, n1, n2) (z0, z1, z2) =
     (case int_of_float (fmul (of_shape n0) z0) of
        Inl e \<Rightarrow> Inl e
      | Inr m0 \<Rightarrow>
     (case int_of_float (fmul (of_shape n1) z1) of
        Inl e \<Rightarrow> Inl e
      | Inr m1 \<Rightarrow>
     (case int_of_float (fmul (of_shape n2) z2) of
        Inl e \<Rightarrow> Inl e
      | Inr m2 \<Rightarrow>
          if m0 < 0 \<or> m1 < 0 \<or> m2 < 0 then Inl ValueError
          else Inr (nat m0, nat m1, nat m2))))"

definition scan_spacing :: "real triple \<Rightarrow> fl triple" where
  \<comment> \<open>line 100: the slice thickness and the pixel spacing of the scan, stored in an array
      of dtype float32\<close>
  "scan_spacing spacing = map3 (round_to binary32) spacing"

definition new_shape :: "nat triple \<Rightarrow> real triple \<Rightarrow> real triple \<Rightarrow> fl triple" where
  \<comment> \<open>lines 100 to 107: \<open>resize_factor\<close>, \<open>new_real_shape\<close> and the rounded \<open>new_shape\<close>;
      the float32 array divided by the list \<open>new_spacing\<close> gives float64\<close>
  "new_shape shape spacing new_spacing =
     (let resize_factor = zip3 fdiv (scan_spacing spacing) (map3 (round_to binary64) new_spacing);
          new_real_shape = zip3 fmul (map3 of_shape shape) resize_factor
      in map3 fround new_real_shape)"

definition new_geometry :: "nat triple \<Rightarrow> real triple \<Rightarrow> real triple \<Rightarrow> fl triple \<times> fl triple" where
  \<comment> \<open>lines 100 to 113 of \<open>resample\<close>: from the shape of the image, the spacing read from
      the scan and the requested spacing to \<open>real_resize_factor\<close> and the new spacing\<close>
  "new_geometry shape spacing new_spacing =
     (let real_resize_factor =
            zip3 fdiv (new_shape shape spacing new_spacing) (map3 of_shape shape);
          new_spacing = zip3 fdiv (scan_spacing spacing) real_resize_factor
      in (real_resize_factor, new_spacing))"

definition resample :: "nat triple \<Rightarrow> real triple \<Rightarrow> real triple \<Rightarrow> error + nat triple \<times> fl triple" where
  \<comment> \<open>\<open>resample\<close> on the geometry of its arguments: the shape of \<open>image\<close>, the spacing of
      the scan and \<open>new_spacing\<close>; the result is the shape of the resampled image and the
      new spacing\<close>
  "resample shape spacing new_spacing =
     (let (real_resize_factor, new_spacing) = new_geometry shape spacing new_spacing
      in case zoom_shape shape real_resize_factor of
           Inl e \<Rightarrow> Inl e
         | Inr zoomed \<Rightarrow> Inr (zoomed, new_spacing))"

fun extent_preserved :: "nat \<Rightarrow> fl \<Rightarrow> nat \<Rightarrow> real \<Rightarrow> bool" where
  \<comment> \<open>the specification's bound along one axis, for the achieved spacing returned:
      \<open>|new_shape * achieved_spacing - old_shape * original_spacing| \<le> achieved_spacing\<close>;
      an infinite or undefined spacing satisfies no bound\<close>
  "extent_preserved new_n (Fin a) old_n original =
     (\<bar>of_nat new_n * a - of_nat old_n * original\<bar> \<le> a)"
| "extent_preserved new_n NZero old_n original =
     (\<bar>0 - of_nat old_n * original\<bar> \<le> (0::real))"
| "extent_preserved new_n x old_n original = False"

section \<open>Volumes, morphology and labelling\<close>

text \<open>
  A 3-D NumPy array: its shape and its voxels, addressed by \<open>(z, y, x)\<close>. Only the voxels
  inside the shape belong to the array; no operation below reads any other, except the
  morphological filters, which take \<open>border_value = 0\<close> outside the array as SciPy does.
\<close>

type_synonym idx = "int \<times> int \<times> int"

record 'a ndarray =
  shape :: "nat triple"
  vox :: "idx \<Rightarrow> 'a"

fun inb :: "nat triple \<Rightarrow> idx \<Rightarrow> bool" where
  "inb (nz, ny, nx) (z, y, x) =
     (0 \<le> z \<and> z < int nz \<and> 0 \<le> y \<and> y < int ny \<and> 0 \<le> x \<and> x < int nx)"

fun indices :: "nat triple \<Rightarrow> idx list" where
  \<comment> \<open>all positions of an array, in raster (C) order\<close>
  "indices (nz, ny, nx) =
     concat (map (\<lambda>z. concat (map (\<lambda>y. map (\<lambda>x. (int z, int y, int x)) [0..<nx]) [0..<ny]))
               [0..<nz])"

definition ravel :: "'a ndarray \<Rightarrow> 'a list" where
  "ravel a = map (vox a) (indices (shape a))"

definition amap :: "('a \<Rightarrow> 'b) \<Rightarrow> 'a ndarray \<Rightarrow> 'b ndarray" where
  \<comment> \<open>an elementwise operation\<close>
  "amap f a = \<lparr>shape = shape a, vox = (\<lambda>p. f (vox a p))\<rparr>"

definition set_where :: "(idx \<Rightarrow> bool) \<Rightarrow> 'a \<Rightarrow> 'a ndarray \<Rightarrow> 'a ndarray" where
  \<comment> \<open>the masked assignment \<open>a[cond] = v\<close>\<close>
  "set_where cond v a =
     \<lparr>shape = shape a, vox = (\<lambda>p. if inb (shape a) p \<and> cond p then v else vox a p)\<rparr>"

definition take_slice :: "'a ndarray \<Rightarrow> nat \<Rightarrow> 'a ndarray" where
  \<comment> \<open>the 2-D array \<open>a[i]\<close>, kept as a volume of one layer: its voxel \<open>(y, x)\<close> is
      addressed by \<open>(0, y, x)\<close>\<close>
  "take_slice a i =
     (case shape a of (nz, ny, nx) \<Rightarrow>
        \<lparr>shape = (1, ny, nx), vox = (\<lambda>(z, y, x). vox a (int i, y, x))\<rparr>)"

subsection \<open>Binary morphology with a cube of ones\<close>

definition structure_offsets :: "nat \<Rightarrow> int list" where
  \<comment> \<open>the offsets, along one axis, of the elements of a structuring element of \<open>k\<close> ones
      from its centre \<open>k div 2\<close>\<close>
  "structure_offsets k = [- int (k div 2) .. int k - 1 - int (k div 2)]"

definition binary_erosion :: "nat \<Rightarrow> bool ndarray \<Rightarrow> bool ndarray" where
  \<comment> \<open>\<open>scipy.ndimage.binary_erosion(a, structure=np.ones([k, k, k]))\<close>\<close>
  "binary_erosion k a =
     \<lparr>shape = shape a,
      vox = (\<lambda>(z, y, x).
        \<forall>dz \<in> set (structure_offsets k). \<forall>dy \<in> set (structure_offsets k).
        \<forall>dx \<in> set (structure_offsets k).
          inb (shape a) (z + dz, y + dy, x + dx) \<and> vox a (z + dz, y + dy, x + dx))\<rparr>"

definition binary_dilation :: "nat \<Rightarrow> bool ndarray \<Rightarrow> bool ndarray" where
  \<comment> \<open>\<open>scipy.ndimage.binary_dilation(a, structure=np.ones([k, k, k]))\<close>: a voxel is set
      when the structuring element, centred at some set voxel, covers it\<close>
  "binary_dilation k a =
     \<lparr>shape = shape a,
      vox = (\<lambda>(z, y, x).
        \<exists>dz \<in> set (structure_offsets k). \<exists>dy \<in> set (structure_offsets k).
        \<exists>dx \<in> set (structure_offsets k).
          inb (shape a) (z - dz, y - dy, x - dx) \<and> vox a (z - dz, y - dy, x - dx))\<rparr>"

definition binary_closing :: "nat \<Rightarrow> bool ndarray \<Rightarrow> bool ndarray" where
  \<comment> \<open>SciPy's closing: the dilation, then the erosion, both with \<open>border_value = 0\<close>\<close>
  "binary_closing k a = binary_erosion k (binary_dilation k a)"

fun interior :: "nat triple \<Rightarrow> idx \<Rightarrow> bool" where
  \<comment> \<open>the voxels at least 2 away from every face of the volume: those whose cube of 5
      lies inside the array\<close>
  "interior (nz, ny, nx) (z, y, x) =
     (2 \<le> z \<and> z + 2 < int nz \<and> 2 \<le> y \<and> y + 2 < int ny \<and> 2 \<le> x \<and> x + 2 < int nx)"

definition count_positive :: "bool ndarray \<Rightarrow> nat" where
  "count_positive a = length (filter (vox a) (indices (shape a)))"

subsection \<open>Connected components: skimage.measure.label\<close>

fun nbr :: "nat \<Rightarrow> idx \<Rightarrow> idx \<Rightarrow> bool" where
  \<comment> \<open>neighbours at connectivity \<open>c\<close>: every coordinate differs by at most 1 and at most
      \<open>c\<close> coordinates differ (1: the 6 face neighbours, 3: all 26 neighbours)\<close>
  "nbr c (z, y, x) (z', y', x') =
     ((z, y, x) \<noteq> (z', y', x') \<and> \<bar>z - z'\<bar> \<le> 1 \<and> \<bar>y - y'\<bar> \<le> 1 \<and> \<bar>x - x'\<bar> \<le> 1
      \<and> \<bar>z - z'\<bar> + \<bar>y - y'\<bar> + \<bar>x - x'\<bar> \<le> int c)"

definition adjacent :: "int ndarray \<Rightarrow> nat \<Rightarrow> (idx \<times> idx) set" where
  \<comment> \<open>two voxels of the array are joined when they are neighbours and hold the same value\<close>
  "adjacent a c =
     set (filter (\<lambda>(p, q). nbr c p q \<and> vox a p = vox a q)
            (List.product (indices (shape a)) (indices (shape a))))"

definition same_component :: "int ndarray \<Rightarrow> nat \<Rightarrow> idx \<Rightarrow> idx \<Rightarrow> bool" where
  \<comment> \<open>there is a path of neighbours of equal value from \<open>p\<close> to \<open>q\<close>\<close>
  "same_component a c p q = ((p, q) \<in> (adjacent a c)\<^sup>*)"

definition component_root :: "int ndarray \<Rightarrow> nat \<Rightarrow> idx \<Rightarrow> idx" where
  \<comment> \<open>the first voxel, in raster order, of the component of \<open>p\<close>\<close>
  "component_root a c p = hd (filter (same_component a c p) (indices (shape a)))"

definition is_root :: "int ndarray \<Rightarrow> nat \<Rightarrow> int \<Rightarrow> idx \<Rightarrow> bool" where
  "is_root a c background q = (vox a q \<noteq> background \<and> component_root a c q = q)"

definition label_of :: "int ndarray \<Rightarrow> nat \<Rightarrow> int \<Rightarrow> idx \<Rightarrow> int" where
  \<comment> \<open>background voxels get 0; the components are numbered from 1 in the raster order of
      their first voxels\<close>
  "label_of a c background p =
     (if vox a p = background then 0
      else 1 + int (length (filter (is_root a c background)
                      (takeWhile (\<lambda>q. q \<noteq> component_root a c p) (indices (shape a))))))"

definition measure_label :: "nat \<Rightarrow> nat option \<Rightarrow> int \<Rightarrow> int ndarray \<Rightarrow> int ndarray" where
  \<comment> \<open>\<open>skimage.measure.label(a, background=..., connectivity=...)\<close> on an array of
      \<open>ndim\<close> dimensions; \<open>connectivity=None\<close>, the default, is full connectivity,
      \<open>ndim\<close>\<close>
  "measure_label ndim connectivity background a =
     \<lparr>shape = shape a,
      vox = label_of a (case connectivity of None \<Rightarrow> ndim | Some c \<Rightarrow> c) background\<rparr>"

section \<open>segment\_lung\_mask\<close>

definition fill_slice :: "int ndarray \<Rightarrow> nat \<Rightarrow> int ndarray" where
  \<comment> \<open>the body of the loop over the axial slices (lines 204 to 217)\<close>
  "fill_slice binary_image i =
     (let axial_slice = amap (\<lambda>v. v - 1) (take_slice binary_image i);
          labeling = measure_label 2 None 0 axial_slice;
          l_max = largest_label_volume (ravel labeling) 0
      in case l_max of
           None \<Rightarrow> binary_image
         | Some l \<Rightarrow>
             set_where (\<lambda>(z, y, x). z = int i \<and> vox labeling (0, y, x) \<noteq> l) 1 binary_image)"

definition close_sinuses :: "int ndarray \<Rightarrow> int ndarray" where
  \<comment> \<open>lines 181 to 185: the threshold at -320 (air 0, everything else 1), the closing
      with a cube of 5 and the shift by 1\<close>
  "close_sinuses img =
     (let binary_image = amap (\<lambda>v. if - 320 < v then 1 else (0::int)) img
      in amap (\<lambda>b. (if b then 1 else 0) + 1)
           (binary_closing 5 (amap (\<lambda>v. v \<noteq> 0) binary_image)))"

definition fill_outside_air :: "int ndarray \<Rightarrow> error + int ndarray" where
  \<comment> \<open>lines 187 to 197: the labelling with \<open>connectivity=1\<close>, the label of the corner
      voxel, and the assignment of 2 to its component. Reading \<open>labels[0, 0, 0]\<close> of an
      empty array raises IndexError.\<close>
  "fill_outside_air binary_image =
     (let labels = measure_label 3 (Some 1) 0 binary_image
      in if \<not> inb (shape labels) (0, 0, 0) then Inl IndexError
         else
           let background_label = vox labels (0, 0, 0)
           in Inr (set_where (\<lambda>p. background_label = vox labels p) 2 binary_image))"

definition fill_structures :: "bool \<Rightarrow> int ndarray \<Rightarrow> int ndarray" where
  \<comment> \<open>lines 201 to 217: the loop over the axial slices, when enabled\<close>
  "fill_structures fill_lung_structures binary_image =
     (if fill_lung_structures
      then foldl fill_slice binary_image [0..<fst (shape binary_image)]
      else binary_image)"

definition lungs_to_one :: "int ndarray \<Rightarrow> int ndarray" where
  \<comment> \<open>lines 219 to 221: \<open>binary_image -= 1\<close>, then \<open>1 - binary_image\<close>\<close>
  "lungs_to_one binary_image = amap (\<lambda>v. 1 - v) (amap (\<lambda>v. v - 1) binary_image)"

definition remove_air_pockets :: "int ndarray \<Rightarrow> int ndarray" where
  \<comment> \<open>lines 223 to 227: the labelling with the default connectivity and background 0;
      everything outside the largest component is cleared\<close>
  "remove_air_pockets binary_image =
     (let labels = measure_label 3 None 0 binary_image;
          l_max = largest_label_volume (ravel labels) 0
      in case l_max of
           None \<Rightarrow> binary_image
         | Some l \<Rightarrow> set_where (\<lambda>p. vox labels p \<noteq> l) 0 binary_image)"

definition lung_candidate :: "int ndarray \<Rightarrow> bool \<Rightarrow> error + int ndarray" where
  \<comment> \<open>lines 181 to 227 of \<open>segment_lung_mask\<close>: the binary image before the dilation\<close>
  "lung_candidate img fill_lung_structures =
     (case fill_outside_air (close_sinuses img) of
        Inl e \<Rightarrow> Inl e
      | Inr binary_image \<Rightarrow>
          Inr (remove_air_pockets (lungs_to_one
                 (fill_structures fill_lung_structures binary_image))))"

definition segment_lung_mask :: "int ndarray \<Rightarrow> bool \<Rightarrow> error + bool ndarray" where
  \<comment> \<open>the whole function: the candidate region, then the dilation of lines 229 to 232
      with a cube of 10\<close>
  "segment_lung_mask img fill_lung_structures =
     (case lung_candidate img fill_lung_structures of
        Inl e \<Rightarrow> Inl e
      | Inr binary_image \<Rightarrow>
          Inr (binary_dilation 10 (amap (\<lambda>v. v \<noteq> 0) binary_image)))"

section \<open>Properties of normalize\<close>

lemma normalize_voxel_clamp:
  "normalize_voxel x (- 1000) 400 = max 0 (min 1 ((x + 1000) / 1400))"
  by (simp add: normalize_voxel_def Let_def max_def min_def)

lemma normalize_voxel_range:
  "0 \<le> normalize_voxel x (- 1000) 400 \<and> normalize_voxel x (- 1000) 400 \<le> 1"
  by (simp add: normalize_voxel_def Let_def)

text \<open>
  Claim C9. With \<open>min_bound = -1000\<close> and \<open>max_bound = 400\<close>, \<open>normalize\<close> maps every voxel
  \<open>x\<close> to \<open>(x - min_bound) / (max_bound - min_bound)\<close> clamped to the interval from 0 to 1;
  the voxels -1000, 400, 1000 and -2000 go to 0, 1, 1 and 0, and every output value lies
  between 0 and 1.
\<close>

theorem normalize_clamped:
  "normalize_im img (- 1000) 400 = map (\<lambda>x. max 0 (min 1 ((x - (- 1000)) / (400 - (- 1000))))) img
   \<and> normalize_im [- 1000, 400, 1000, - 2000] (- 1000) 400 = [0, 1, 1, 0]
   \<and> (\<forall>y \<in> set (normalize_im img (- 1000) 400). 0 \<le> y \<and> y \<le> 1)"
proof (intro conjI)
  show "normalize_im img (- 1000) 400
      = map (\<lambda>x. max 0 (min 1 ((x - (- 1000)) / (400 - (- 1000))))) img"
    by (simp add: normalize_im_def normalize_voxel_clamp)
  show "normalize_im [- 1000, 400, 1000, - 2000] (- 1000) 400 = [0, 1, 1, 0]"
    by (simp add: normalize_im_def normalize_voxel_def Let_def)
  show "\<forall>y \<in> set (normalize_im img (- 1000) 400). 0 \<le> y \<and> y \<le> 1"
    using normalize_voxel_range by (auto simp: normalize_im_def)
qed

theorem normalize_clamped_witness:
  "normalize_im [- 300, 7000] (- 1000) 400 = [1 / 2, 1]"
  using normalize_clamped [of "[- 300, 7000]"] by simp

section \<open>Properties of largest\_label\_volume\<close>

lemma np_argmax_lt: "cs \<noteq> [] \<Longrightarrow> np_argmax cs < length cs"
proof (induction cs)
  case Nil
  then show ?case by simp
next
  case (Cons c cs)
  show ?case
  proof (cases "\<forall>e \<in> set cs. e \<le> c")
    case True
    then show ?thesis by simp
  next
    case False
    then have "cs \<noteq> []" by auto
    with Cons.IH False show ?thesis by simp
  qed
qed

lemma np_argmax_max: "\<forall>d \<in> set cs. d \<le> cs ! np_argmax cs"
proof (induction cs)
  case Nil
  then show ?case by simp
next
  case (Cons c cs)
  show ?case
  proof (cases "\<forall>e \<in> set cs. e \<le> c")
    case True
    then show ?thesis by auto
  next
    case False
    then obtain e where e: "e \<in> set cs" "c < e" by auto
    with Cons.IH have "c < cs ! np_argmax cs" by fastforce
    with Cons.IH False show ?thesis by auto
  qed
qed

lemma np_argmax_first: "j < np_argmax cs \<Longrightarrow> cs ! j < cs ! np_argmax cs"
proof (induction cs arbitrary: j)
  case Nil
  then show ?case by simp
next
  case (Cons c cs)
  then have F: "\<not> (\<forall>e \<in> set cs. e \<le> c)" by (auto split: if_splits)
  then obtain e where e: "e \<in> set cs" "c < e" by auto
  then have "c < cs ! np_argmax cs" using np_argmax_max [of cs] by fastforce
  with Cons F show ?case by (cases j) auto
qed

lemma masked_counts:
  "map snd (filter (\<lambda>(v, c). P v) (zip xs (map f xs))) = map f (filter P xs)"
  by (induction xs) auto

lemma largest_label_volume_eq:
  "largest_label_volume im bg =
     (let vals' = filter (\<lambda>v. v \<noteq> bg) (sort (remdups im))
      in if vals' \<noteq> [] then Some (vals' ! np_argmax (map (count_list im) vals')) else None)"
  unfolding largest_label_volume_def np_unique_def Let_def prod.case masked_counts
  by simp

lemma largest_label_volume_None_iff:
  "largest_label_volume im bg = None \<longleftrightarrow> (\<forall>x \<in> set im. x = bg)"
proof -
  define vals where "vals = filter (\<lambda>v. v \<noteq> bg) (sort (remdups im))"
  have set_vals: "set vals = {x \<in> set im. x \<noteq> bg}"
    by (auto simp: vals_def)
  have res: "largest_label_volume im bg =
      (if vals \<noteq> [] then Some (vals ! np_argmax (map (count_list im) vals)) else None)"
    by (simp add: largest_label_volume_eq vals_def Let_def)
  have "vals = [] \<longleftrightarrow> set vals = {}" by simp
  then show ?thesis unfolding res set_vals by auto
qed

lemma largest_label_volume_Some:
  assumes "largest_label_volume im bg = Some v"
  shows "v \<in> set im" and "v \<noteq> bg"
    and "\<forall>w \<in> set im. w \<noteq> bg \<longrightarrow>
           count_list im w \<le> count_list im v
           \<and> (count_list im w = count_list im v \<longrightarrow> v \<le> w)"
proof -
  define vals where "vals = filter (\<lambda>v. v \<noteq> bg) (sort (remdups im))"
  define i where "i = np_argmax (map (count_list im) vals)"
  have set_vals: "set vals = {x \<in> set im. x \<noteq> bg}"
    by (auto simp: vals_def)
  have sorted_vals: "sorted vals"
    by (simp add: vals_def sorted_wrt_filter)
  have res: "largest_label_volume im bg = (if vals \<noteq> [] then Some (vals ! i) else None)"
    by (simp add: largest_label_volume_eq vals_def i_def Let_def)
  from assms res have ne: "vals \<noteq> []" and v: "v = vals ! i"
    by (auto split: if_splits)
  from ne have i: "i < length vals"
    using np_argmax_lt [of "map (count_list im) vals"] by (simp add: i_def)
  then have "v \<in> set vals" by (simp add: v)
  then show "v \<in> set im" "v \<noteq> bg" by (auto simp: set_vals)
  have cmp: "count_list im w \<le> count_list im v
              \<and> (count_list im w = count_list im v \<longrightarrow> v \<le> w)"
    if w: "w \<in> set im" "w \<noteq> bg" for w
  proof -
    from w have "w \<in> set vals" by (simp add: set_vals)
    then obtain j where j: "j < length vals" "w = vals ! j"
      by (auto simp: in_set_conv_nth)
    have le: "count_list im w \<le> count_list im v"
      using np_argmax_max [of "map (count_list im) vals"] i j
      by (simp add: i_def [symmetric] v)
    have "v \<le> w" if eq: "count_list im w = count_list im v"
    proof (rule ccontr)
      assume "\<not> v \<le> w"
      then have "\<not> i \<le> j"
        using sorted_nth_mono [OF sorted_vals, of i j] j by (auto simp: v)
      then have "j < i" by simp
      then have "map (count_list im) vals ! j < map (count_list im) vals ! i"
        unfolding i_def by (rule np_argmax_first)
      with i j eq show False by (simp add: v)
    qed
    with le show ?thesis by simp
  qed
  then show "\<forall>w \<in> set im. w \<noteq> bg \<longrightarrow>
           count_list im w \<le> count_list im v
           \<and> (count_list im w = count_list im v \<longrightarrow> v \<le> w)"
    by blast
qed

text \<open>
  Claim C10. \<open>largest_label_volume\<close> returns \<open>None\<close> exactly when every element of the
  array equals the background value; otherwise it returns the non-background value that
  occurs most often, and among several values with that greatest count the smallest one.
\<close>

theorem largest_label_volume_spec:
  "(largest_label_volume im bg = None \<longleftrightarrow> (\<forall>x \<in> set im. x = bg))
   \<and> (\<forall>v. largest_label_volume im bg = Some v \<longrightarrow>
          v \<in> set im \<and> v \<noteq> bg
          \<and> (\<forall>w \<in> set im. w \<noteq> bg \<longrightarrow>
                count_list im w \<le> count_list im v
                \<and> (count_list im w = count_list im v \<longrightarrow> v \<le> w)))"
  using largest_label_volume_None_iff [of im bg] largest_label_volume_Some [of im bg]
  by blast

theorem largest_label_volume_spec_witness:
  "largest_label_volume [2, 1, 2, 1, 0, 0, 0] 0 = Some 1
   \<and> count_list [2, 1, 2, 1, 0, 0, 0] (2::int) \<le> count_list [2, 1, 2, 1, 0, 0, 0] (1::int)
   \<and> largest_label_volume [0, 0] 0 = None"
proof -
  have a: "largest_label_volume [2, 1, 2, 1, 0, 0, 0] 0 = Some 1"
    by (simp add: largest_label_volume_eq)
  have b: "\<forall>x \<in> set [0, 0 :: int]. x = 0"
    by simp
  have c: "(2::int) \<in> set [2, 1, 2, 1, 0, 0, 0]" "(2::int) \<noteq> 0"
    by simp_all
  note s1 = largest_label_volume_spec [of "[2, 1, 2, 1, 0, 0, 0]" 0, THEN conjunct2,
      rule_format, OF a, THEN conjunct2, THEN conjunct2, THEN bspec, OF c(1), THEN mp,
      OF c(2), THEN conjunct1]
  note s2 = largest_label_volume_spec [of "[0, 0]" 0, THEN conjunct1, THEN iffD2, OF b]
  from a s1 s2 show ?thesis
    by simp
qed

section \<open>Properties of the rounding\<close>

lemma np_round_of_int: "np_round (of_int m) = m"
  by (simp add: np_round_def Let_def)

lemma np_round_error: "\<bar>of_int (np_round y) - y\<bar> \<le> 1 / 2"
proof -
  have "of_int \<lfloor>y\<rfloor> \<le> y" "y < of_int \<lfloor>y\<rfloor> + 1"
    by linarith+
  then show ?thesis
    by (auto simp: np_round_def Let_def)
qed

lemma np_round_unique:
  assumes "\<bar>y - of_int m\<bar> < 1 / 2"
  shows "np_round y = m"
proof (cases "of_int m \<le> y")
  case True
  with assms have "\<lfloor>y\<rfloor> = m" by (intro floor_unique) linarith+
  with assms True show ?thesis by (simp add: np_round_def Let_def)
next
  case False
  with assms have f: "\<lfloor>y\<rfloor> = m - 1" by (intro floor_unique) (simp, linarith+)
  with assms False show ?thesis by (simp add: np_round_def Let_def)
qed

lemma powi_less_cancel:
  assumes "(2::real) powi a < 2 powi b"
  shows "a < b"
proof (rule ccontr)
  assume "\<not> a < b"
  then have "b \<le> a" by simp
  then have "(2::real) powi b \<le> 2 powi a"
    by (rule power_int_increasing) simp
  with assms show False by simp
qed

lemma bitlen_floor_bounds:
  fixes y :: real
  assumes "1 \<le> y"
  shows "0 \<le> bitlen \<lfloor>y\<rfloor> - 1" and "2 powi (bitlen \<lfloor>y\<rfloor> - 1) \<le> y"
    and "y < 2 powi (bitlen \<lfloor>y\<rfloor> - 1 + 1)"
proof -
  let ?n = "\<lfloor>y\<rfloor>"
  from assms have n: "0 < ?n" by simp
  note b = bitlen_bounds [OF n]
  have "bitlen ?n \<noteq> 0"
    using n by (simp add: bitlen_eq_zero_iff)
  with bitlen_nonneg [of ?n] show k: "0 \<le> bitlen ?n - 1" by simp
  have "(2::real) powi (bitlen ?n - 1) = of_int (2 ^ nat (bitlen ?n - 1))"
    using k by (simp add: power_int_nonneg_exp)
  also have "\<dots> \<le> of_int ?n"
    using b by (simp only: of_int_le_iff)
  also have "\<dots> \<le> y" by simp
  finally show "2 powi (bitlen ?n - 1) \<le> y" .
  from b have "?n + 1 \<le> 2 ^ nat (bitlen ?n)" by simp
  then have "(of_int (?n + 1) :: real) \<le> of_int (2 ^ nat (bitlen ?n))"
    by (simp only: of_int_le_iff)
  moreover have "y < of_int (?n + 1)" by simp
  ultimately have "y < of_int (2 ^ nat (bitlen ?n))" by linarith
  also have "\<dots> = 2 powi (bitlen ?n - 1 + 1)"
    using k by (simp add: power_int_nonneg_exp)
  finally show "y < 2 powi (bitlen ?n - 1 + 1)" .
qed

lemma expo_bounds:
  assumes "0 < x"
  shows "2 powi expo x \<le> x" and "x < 2 powi (expo x + 1)"
proof -
  have "2 powi expo x \<le> x \<and> x < 2 powi (expo x + 1)"
  proof (cases "1 \<le> x")
    case True
    then show ?thesis
      using bitlen_floor_bounds [OF True] by (simp add: expo_def)
  next
    case False
    define k where "k = bitlen \<lfloor>1 / x\<rfloor> - 1"
    from False assms have y: "1 \<le> 1 / x" by simp
    note b = bitlen_floor_bounds [OF y, folded k_def]
    have p: "0 < (2::real) powi k" by simp
    from b(2) assms have le: "x * 2 powi k \<le> 1"
      by (simp add: field_simps)
    from b(3) assms have gt: "1 < x * 2 powi (k + 1)"
      by (simp add: field_simps)
    show ?thesis
    proof (cases "x * 2 powi k = 1")
      case True
      then have x: "x = 2 powi (- k)"
        by (simp add: power_int_minus field_simps)
      have "expo x = - k"
        using False True by (simp add: expo_def k_def Let_def)
      moreover have "(2::real) powi (- k) < 2 powi (- k + 1)"
        by (rule power_int_strict_increasing) simp_all
      ultimately show ?thesis using x by simp
    next
      case ne: False
      have e: "expo x = - k - 1"
        using False ne by (simp add: expo_def k_def Let_def)
      have "(2::real) powi (- k - 1) = 1 / 2 powi (k + 1)"
        using power_int_minus_divide [of "2::real" "k + 1"] by simp
      moreover from gt have "1 / 2 powi (k + 1) < x"
        by (simp add: field_simps)
      ultimately have 1: "2 powi (- k - 1) < x" by simp
      have "(2::real) powi (- k) = 1 / 2 powi k"
        by (rule power_int_minus_divide)
      moreover from le ne p have "x < 1 / 2 powi k"
        by (simp add: field_simps)
      ultimately have 2: "x < 2 powi (- k)" by simp
      from 1 2 show ?thesis by (simp add: e)
    qed
  qed
  then show "2 powi expo x \<le> x" and "x < 2 powi (expo x + 1)" by simp_all
qed

lemma expo_ge:
  assumes "2 powi k \<le> x"
  shows "k \<le> expo x"
proof -
  have "0 < (2::real) powi k" by simp
  with assms have x: "0 < x" by linarith
  from assms expo_bounds(2) [OF x] have "(2::real) powi k < 2 powi (expo x + 1)"
    by linarith
  then have "k < expo x + 1" by (rule powi_less_cancel)
  then show ?thesis by simp
qed

lemma expo_less:
  assumes "0 < x" and "x < 2 powi k"
  shows "expo x < k"
proof -
  from assms(2) expo_bounds(1) [OF assms(1)] have "(2::real) powi expo x < 2 powi k"
    by linarith
  then show ?thesis by (rule powi_less_cancel)
qed

lemma round_to_rel:
  assumes p: "0 < precision fmt"
    and lo: "2 powi (emin fmt) \<le> \<bar>x\<bar>" and hi: "\<bar>x\<bar> \<le> 2 powi (emax fmt)"
  shows "\<exists>y. round_to fmt x = Fin y \<and> \<bar>y - x\<bar> \<le> 2 powi (- int (precision fmt)) * \<bar>x\<bar>"
proof -
  define e where "e = expo \<bar>x\<bar>"
  define u :: real where "u = 2 powi (e - (int (precision fmt) - 1))"
  define y where "y = of_int (np_round (x / u)) * u"
  have "0 < (2::real) powi (emin fmt)" by simp
  with lo have x: "0 < \<bar>x\<bar>" by linarith
  then have x0: "x \<noteq> 0" by simp
  from lo have "emin fmt \<le> e" unfolding e_def by (rule expo_ge)
  then have m: "max (expo \<bar>x\<bar>) (emin fmt) = e" by (simp add: e_def)
  have u: "0 < u" by (simp add: u_def)
  have ex: "2 powi e \<le> \<bar>x\<bar>" unfolding e_def by (rule expo_bounds(1) [OF x])
  have eq: "e - (int (precision fmt) - 1) = e - int (precision fmt) + 1" by simp
  have "u = 2 powi (e - int (precision fmt) + 1)"
    unfolding u_def eq ..
  also have "\<dots> = 2 powi (e - int (precision fmt)) * 2"
    using power_int_add [of "2::real" "e - int (precision fmt)" 1] by simp
  finally have half: "u / 2 = 2 powi (e - int (precision fmt))" by simp
  have "y - x = (of_int (np_round (x / u)) - x / u) * u"
    using u by (simp add: y_def field_simps)
  then have "\<bar>y - x\<bar> = \<bar>of_int (np_round (x / u)) - x / u\<bar> * u"
    using u by (simp add: abs_mult)
  also have "\<dots> \<le> 1 / 2 * u"
    using u np_round_error [of "x / u"] by (intro mult_right_mono) simp_all
  finally have d: "\<bar>y - x\<bar> \<le> 2 powi (e - int (precision fmt))"
    using half by simp
  have "(2::real) powi (e - int (precision fmt)) = 2 powi (- int (precision fmt)) * 2 powi e"
    by (simp flip: power_int_add)
  also have "\<dots> \<le> 2 powi (- int (precision fmt)) * \<bar>x\<bar>"
    using ex by (intro mult_left_mono) simp_all
  finally have rel: "(2::real) powi (e - int (precision fmt)) \<le> 2 powi (- int (precision fmt)) * \<bar>x\<bar>" .
  have "(2::real) powi (- int (precision fmt)) \<le> 2 powi (- 1)"
    using p by (intro power_int_increasing) simp_all
  then have q: "(2::real) powi (- int (precision fmt)) \<le> 1 / 2" by simp
  then have "2 powi (- int (precision fmt)) * \<bar>x\<bar> \<le> 1 / 2 * \<bar>x\<bar>"
    by (intro mult_right_mono) simp_all
  with d rel have dx: "\<bar>y - x\<bar> \<le> \<bar>x\<bar> / 2" by simp
  with x have y0: "y \<noteq> 0" by auto
  from dx have "\<bar>y\<bar> \<le> 3 / 2 * \<bar>x\<bar>" by linarith
  also from hi have "\<dots> \<le> 3 / 2 * 2 powi (emax fmt)" by simp
  also have "\<dots> < 2 * 2 powi (emax fmt)" by simp
  also have "\<dots> = 2 powi (emax fmt + 1)" by (simp add: power_int_add)
  finally have ov: "\<not> 2 powi (emax fmt + 1) \<le> \<bar>y\<bar>" by simp
  have "round_to fmt x = Fin y"
    using x0 y0 ov unfolding round_to_def m Let_def u_def [symmetric] y_def [symmetric]
    by simp
  with d rel show ?thesis by auto
qed

lemma of_shape_exact:
  assumes "n < 2 ^ 53"
  shows "of_shape n = Fin (of_nat n)"
proof (cases "n = 0")
  case True
  then show ?thesis by (simp add: of_shape_def round_to_def)
next
  case False
  define x :: real where "x = of_nat n"
  define e where "e = expo x"
  define u :: real where "u = 2 powi (e - 52)"
  from False have x1: "1 \<le> x" by (simp add: x_def)
  then have x: "0 < x" by simp
  have "(2::real) powi 0 \<le> x" using x1 by simp
  then have e0: "0 \<le> e" unfolding e_def by (rule expo_ge)
  from assms have "x < 2 ^ 53" unfolding x_def
    by (metis of_nat_less_iff of_nat_numeral of_nat_power)
  then have "x < 2 powi 53" by simp
  with x have "e < 53" unfolding e_def by (rule expo_less)
  then have e52: "0 \<le> 52 - e" by simp
  have "1 / u = 2 powi (52 - e)"
    unfolding u_def using power_int_minus_divide [of "2::real" "e - 52"] by simp
  also have "\<dots> = of_int (2 ^ nat (52 - e))"
    using e52 by (simp add: power_int_nonneg_exp)
  finally have iu: "1 / u = of_int (2 ^ nat (52 - e))" .
  have "x / u = x * (1 / u)" by simp
  also have "\<dots> = of_int (int n * 2 ^ nat (52 - e))"
    unfolding iu x_def by simp
  finally have "np_round (x / u) = int n * 2 ^ nat (52 - e)"
    by (simp only: np_round_of_int)
  then have "of_int (np_round (x / u)) * u = x * (1 / u) * u"
    unfolding iu x_def by simp
  also have "\<dots> = x" by (simp add: u_def)
  finally have y: "of_int (np_round (x / u)) * u = x" .
  have "x < 2 powi 1024"
  proof -
    have "(2::real) powi 53 \<le> 2 powi 1024" by (intro power_int_increasing) simp_all
    with \<open>x < 2 powi 53\<close> show ?thesis by linarith
  qed
  moreover have "max (expo \<bar>x\<bar>) (- 1022) = e" using e0 x by (simp add: e_def)
  ultimately have "round_to binary64 x = Fin x"
    using x y unfolding round_to_def binary64_def Let_def
    by (simp add: u_def)
  then show ?thesis by (simp add: of_shape_def x_def)
qed

section \<open>Properties of get\_pixels\_hu\<close>

lemma rescale_slice_eq:
  "k < length img \<Longrightarrow> rescale_slice slices img k = img[k := hu_row (slices ! k) (img ! k)]"
  by (simp add: rescale_slice_def hu_row_def Let_def comp_def)

lemma rescale_loop:
  "n \<le> length img \<Longrightarrow>
   foldl (rescale_slice slices) img [0..<n] =
     map (\<lambda>k. if k < n then hu_row (slices ! k) (img ! k) else img ! k) [0..<length img]"
proof (induction n)
  case 0
  then show ?case by (simp add: map_nth)
next
  case (Suc n)
  then have n: "n < length img" by simp
  let ?m = "map (\<lambda>k. if k < n then hu_row (slices ! k) (img ! k) else img ! k) [0..<length img]"
  let ?r = "map (\<lambda>k. if k < Suc n then hu_row (slices ! k) (img ! k) else img ! k)
              [0..<length img]"
  have "foldl (rescale_slice slices) img [0..<Suc n] = rescale_slice slices ?m n"
    using Suc by simp
  also have "\<dots> = ?m[n := hu_row (slices ! n) (?m ! n)]"
    using n by (simp add: rescale_slice_eq)
  also have "\<dots> = ?r"
  proof (rule nth_equalityI)
    show "length (?m[n := hu_row (slices ! n) (?m ! n)]) = length ?r"
      by simp
  next
    fix i assume "i < length (?m[n := hu_row (slices ! n) (?m ! n)])"
    then have i: "i < length img" by simp
    show "?m[n := hu_row (slices ! n) (?m ! n)] ! i = ?r ! i"
    proof (cases "i = n")
      case True
      with n show ?thesis by simp
    next
      case False
      with i n show ?thesis by (simp add: less_Suc_eq)
    qed
  qed
  finally show ?case .
qed

lemma np_stack_cases: "np_stack a = Inl ValueError \<or> np_stack a = Inr a"
  by (simp add: np_stack_def)

lemma np_stack_ok:
  assumes "a \<noteq> []" and "\<forall>x \<in> set a. length x = length (hd a)"
  shows "np_stack a = Inr a"
proof -
  from assms(2) have "\<not> (\<exists>x \<in> set a. length x \<noteq> length (hd a))" by blast
  with assms(1) show ?thesis unfolding np_stack_def by (simp only: if_False simp_thms)
qed

lemma rescale_all:
  "foldl (rescale_slice slices) (map (map word_of_int) (map pixel_array slices))
      [0..<length slices]
   = map (\<lambda>s. hu_row s (map word_of_int (pixel_array s))) slices"
proof -
  let ?img = "map (map word_of_int) (map pixel_array slices) :: int16 list list"
  have "length slices \<le> length ?img" by simp
  then have "foldl (rescale_slice slices) ?img [0..<length slices]
    = map (\<lambda>k. if k < length slices then hu_row (slices ! k) (?img ! k) else ?img ! k)
        [0..<length ?img]"
    by (rule rescale_loop)
  also have "\<dots> = map (\<lambda>s. hu_row s (map word_of_int (pixel_array s))) slices"
    by (rule nth_equalityI) simp_all
  finally show ?thesis .
qed

lemma get_pixels_hu_Inr:
  assumes "get_pixels_hu slices = Inr img"
  shows "img = map (\<lambda>s. hu_row s (map word_of_int (pixel_array s))) slices"
proof -
  from np_stack_cases [of "map pixel_array slices"] show ?thesis
  proof
    assume "np_stack (map pixel_array slices) = Inl ValueError"
    with assms show ?thesis by (simp add: get_pixels_hu_def)
  next
    assume "np_stack (map pixel_array slices) = Inr (map pixel_array slices)"
    then have "get_pixels_hu slices
      = Inr (map (\<lambda>s. hu_row s (map word_of_int (pixel_array s))) slices)"
      unfolding get_pixels_hu_def by (simp only: sum.case rescale_all)
    with assms show ?thesis by simp
  qed
qed

lemma get_pixels_hu_total:
  assumes "slices \<noteq> []"
    and "\<forall>s \<in> set slices. length (pixel_array s) = length (pixel_array (hd slices))"
  shows "\<exists>img. get_pixels_hu slices = Inr img"
proof -
  from assms(1) have hd: "hd (map pixel_array slices) = pixel_array (hd slices)"
    by (rule hd_map)
  have "\<forall>x \<in> set (map pixel_array slices). length x = length (hd (map pixel_array slices))"
    unfolding hd using assms(2) by (simp only: set_map ball_simps)
  moreover from assms(1) have "map pixel_array slices \<noteq> []" by simp
  ultimately have "np_stack (map pixel_array slices) = Inr (map pixel_array slices)"
    by (intro np_stack_ok)
  then show ?thesis unfolding get_pixels_hu_def by (simp only: sum.case) blast
qed

lemma get_pixels_hu_nth:
  assumes "get_pixels_hu slices = Inr img" and "k < length slices"
    and "j < length (pixel_array (slices ! k))"
  shows "img ! k ! j =
     float_to_int16 (fmul (round_to binary64 (RescaleSlope (slices ! k)))
        (Fin (of_int (sint (word_of_int (pixel_array (slices ! k) ! j) :: int16)))))
     + float_to_int16 (round_to binary64 (RescaleIntercept (slices ! k)))"
  using assms(2,3) by (simp add: get_pixels_hu_Inr [OF assms(1)] hu_row_def)

lemma sint_word_of_int_fits: "fits_int16 n \<Longrightarrow> sint (word_of_int n :: int16) = n"
  by (simp add: fits_int16_def signed_of_int signed_take_bit_int_eq_self)

lemma sint_word_of_int_wrap: "sint (word_of_int n :: int16) = wrap_int16 n"
  by (simp add: wrap_int16_def signed_of_int signed_take_bit_eq_take_bit_shift take_bit_eq_mod)

lemma wrap_int16_fits: "fits_int16 n \<Longrightarrow> wrap_int16 n = n"
  by (simp add: wrap_int16_def fits_int16_def)


lemma float_to_int16_fits:
  "fits_int16 (trunc a) \<Longrightarrow> float_to_int16 (Fin a) = word_of_int (trunc a)"
  by (simp add: fits_int16_def fits_int32_def)

lemmas float_eval = fmul_def fdiv_def is_zero_def is_inf_def finf_def fzero_def
  round_to_def binary32_def binary64_def expo_def compute_bitlen np_round_def Let_def

lemma get_pixels_hu_voxel:
  assumes "get_pixels_hu slices = Inr img"
    and "k < length slices" and "j < length (pixel_array (slices ! k))"
    and "fits_int16 (pixel_array (slices ! k) ! j)"
    and "fmul (round_to binary64 (RescaleSlope (slices ! k)))
           (Fin (of_int (pixel_array (slices ! k) ! j))) = Fin q"
    and "fits_int16 (trunc q)"
    and "round_to binary64 (RescaleIntercept (slices ! k)) = Fin c"
    and "fits_int16 (trunc c)"
  shows "img ! k ! j = word_of_int (trunc q + trunc c)"
proof -
  have "img ! k ! j =
     float_to_int16 (fmul (round_to binary64 (RescaleSlope (slices ! k)))
        (Fin (of_int (pixel_array (slices ! k) ! j))))
     + float_to_int16 (round_to binary64 (RescaleIntercept (slices ! k)))"
    using get_pixels_hu_nth [OF assms(1-3)] assms(4) by (simp add: sint_word_of_int_fits)
  also have "\<dots> = float_to_int16 (Fin q) + float_to_int16 (Fin c)"
    by (simp only: assms(5,7))
  also have "\<dots> = word_of_int (trunc q) + word_of_int (trunc c)"
    by (simp only: float_to_int16_fits [OF assms(6)] float_to_int16_fits [OF assms(8)])
  finally show ?thesis by simp
qed







section \<open>Properties of resample\<close>

lemma round64_rel:
  assumes "2 powi (- 1022) \<le> \<bar>x\<bar>" and "\<bar>x\<bar> \<le> 2 powi 1023"
  shows "\<exists>y. round_to binary64 x = Fin y \<and> \<bar>y - x\<bar> \<le> \<bar>x\<bar> / 2 ^ 53"
proof -
  have "\<exists>y. round_to binary64 x = Fin y
      \<and> \<bar>y - x\<bar> \<le> 2 powi (- int (precision binary64)) * \<bar>x\<bar>"
    using assms by (intro round_to_rel) (simp_all add: binary64_def)
  moreover have "(2::real) powi (- int (precision binary64)) * \<bar>x\<bar> = \<bar>x\<bar> / 2 ^ 53"
    by (simp add: binary64_def power_int_minus_divide)
  ultimately show ?thesis by simp
qed

lemma round32_rel:
  assumes "2 powi (- 126) \<le> \<bar>x\<bar>" and "\<bar>x\<bar> \<le> 2 powi 127"
  shows "\<exists>y. round_to binary32 x = Fin y \<and> \<bar>y - x\<bar> \<le> \<bar>x\<bar> / 2 ^ 24"
proof -
  have "\<exists>y. round_to binary32 x = Fin y
      \<and> \<bar>y - x\<bar> \<le> 2 powi (- int (precision binary32)) * \<bar>x\<bar>"
    using assms by (intro round_to_rel) (simp_all add: binary32_def)
  moreover have "(2::real) powi (- int (precision binary32)) * \<bar>x\<bar> = \<bar>x\<bar> / 2 ^ 24"
    by (simp add: binary32_def power_int_minus_divide)
  ultimately show ?thesis by simp
qed

lemma quotient_range:
  fixes x y :: real
  assumes "2 powi a \<le> x" "x \<le> 2 powi b" "2 powi c \<le> y" "y \<le> 2 powi d"
  shows "2 powi (a - d) \<le> x / y" and "x / y \<le> 2 powi (b - c)"
proof -
  have p: "0 < (2::real) powi a" "0 < (2::real) powi c" by simp_all
  with assms have x: "0 < x" and y: "0 < y" by linarith+
  have "(2::real) powi (a - d) = 2 powi a / 2 powi d"
    by (simp add: power_int_diff)
  also have "\<dots> \<le> x / y"
    using assms x y by (intro frac_le) simp_all
  finally show "2 powi (a - d) \<le> x / y" .
  have "x / y \<le> 2 powi b / 2 powi c"
    using assms x by (intro frac_le) simp_all
  also have "\<dots> = 2 powi (b - c)"
    by (simp add: power_int_diff)
  finally show "x / y \<le> 2 powi (b - c)" .
qed

lemma binary64_range:
  fixes x :: real
  assumes "2 powi a \<le> x" "x \<le> 2 powi b" "- 1022 \<le> a" "b \<le> 1023"
  shows "2 powi (- 1022) \<le> \<bar>x\<bar>" and "\<bar>x\<bar> \<le> 2 powi 1023"
proof -
  have "0 < (2::real) powi a" by simp
  with assms have x: "0 < x" by linarith
  have "(2::real) powi (- 1022) \<le> 2 powi a"
    using assms(3) by (intro power_int_increasing) simp_all
  with assms(1) x show "2 powi (- 1022) \<le> \<bar>x\<bar>" by linarith
  have "(2::real) powi b \<le> 2 powi 1023"
    using assms(4) by (intro power_int_increasing) simp_all
  with assms(2) x show "\<bar>x\<bar> \<le> 2 powi 1023" by linarith
qed

lemma near_bounds:
  fixes t m :: real
  assumes "1 \<le> m" "m \<le> 1048576" "\<bar>t - m\<bar> \<le> m / 9007199254740992"
  shows "\<bar>t - m\<bar> \<le> 1 / 8589934592" and "t \<le> 2097152" and "1 / 2 \<le> t"
  using assms by linarith+

lemma rel_bounds:
  fixes y x :: real
  assumes "0 < x" "\<bar>y - x\<bar> \<le> x / 9007199254740992"
  shows "x / 2 \<le> y" and "y \<le> 2 * x" and "0 < y"
  using assms by linarith+

lemma rel_bounds32:
  fixes y x :: real
  assumes "0 < x" "\<bar>y - x\<bar> \<le> x / 16777216"
  shows "x / 2 \<le> y" and "y \<le> 2 * x" and "x \<le> 2 * y" and "0 < y"
  using assms by linarith+

lemma sum_bound:
  fixes x1 x2 x3 w a :: real
  assumes "\<bar>x1\<bar> \<le> w / 8589934592" "\<bar>x2\<bar> \<le> w / 8589934592" "\<bar>x3\<bar> \<le> w / 4"
    and "w / 2 \<le> a" "0 < w"
  shows "\<bar>x1 + x2 + x3\<bar> \<le> a"
  using assms by linarith

lemma extent_bound:
  fixes s c r a m n :: real
  assumes s: "0 < s" and c: "\<bar>c - s\<bar> \<le> s / 16777216"
    and m: "1 \<le> m" "m \<le> 1048576" and n: "1 \<le> n"
    and r: "\<bar>r - m / n\<bar> \<le> (m / n) / 9007199254740992"
    and a: "\<bar>a - c / r\<bar> \<le> (c / r) / 9007199254740992"
  shows "\<bar>m * a - n * s\<bar> \<le> a"
proof -
  define w where "w = c / r"
  note cb = rel_bounds32 [OF s c]
  note c0 = cb(4)
  from m n have q: "0 < m / n" by simp
  note rb = rel_bounds [OF q r]
  note r0 = rb(3)
  from c0 r0 have w0: "0 < w" by (simp add: w_def)
  from r0 have cw: "c = w * r" by (simp add: w_def)
  from a have a1: "\<bar>a - w\<bar> \<le> w / 9007199254740992" by (simp only: w_def)
  note ab = rel_bounds [OF w0 a1]
  have "n * \<bar>r - m / n\<bar> \<le> n * ((m / n) / 9007199254740992)"
    using r n by (intro mult_left_mono) simp_all
  moreover have "n * \<bar>r - m / n\<bar> = \<bar>n * (r - m / n)\<bar>"
    using n by (simp add: abs_mult)
  moreover have "n * (r - m / n) = n * r - m"
    using n by (simp add: algebra_simps)
  moreover have "n * ((m / n) / 9007199254740992) = m / 9007199254740992"
    using n by simp
  ultimately have nr: "\<bar>n * r - m\<bar> \<le> m / 9007199254740992" by simp
  note nb = near_bounds [OF m nr]
  have "\<bar>m * (a - w)\<bar> = m * \<bar>a - w\<bar>"
    using m by (simp add: abs_mult)
  also have "\<dots> \<le> 1048576 * (w / 9007199254740992)"
    using m a1 by (intro mult_mono) simp_all
  also have "\<dots> = w / 8589934592" by simp
  finally have x1: "\<bar>m * (a - w)\<bar> \<le> w / 8589934592" .
  have "\<bar>w * (m - n * r)\<bar> = w * \<bar>n * r - m\<bar>"
    using w0 by (simp add: abs_mult abs_minus_commute)
  also have "\<dots> \<le> w * (1 / 8589934592)"
    using w0 nb(1) by (intro mult_left_mono) simp_all
  also have "\<dots> = w / 8589934592" by simp
  finally have x2: "\<bar>w * (m - n * r)\<bar> \<le> w / 8589934592" .
  have "n * c = w * (n * r)" by (simp add: cw)
  also have "\<dots> \<le> w * 2097152"
    using w0 nb(2) by (intro mult_left_mono) simp_all
  finally have nc: "n * c \<le> w * 2097152" .
  have "n * s \<le> n * (2 * c)"
    using n cb(3) by (intro mult_left_mono) simp_all
  with nc have ns: "n * s \<le> w * 4194304" by simp
  have "\<bar>n * (c - s)\<bar> = n * \<bar>c - s\<bar>"
    using n by (simp add: abs_mult)
  also have "\<dots> \<le> n * (s / 16777216)"
    using n c by (intro mult_left_mono) simp_all
  also have "\<dots> = (n * s) / 16777216" by simp
  also have "\<dots> \<le> (w * 4194304) / 16777216"
    using ns by (intro divide_right_mono) simp_all
  also have "\<dots> = w / 4" by simp
  finally have x3: "\<bar>n * (c - s)\<bar> \<le> w / 4" .
  have "m * a - n * s = m * (a - w) + w * (m - n * r) + n * (c - s)"
    by (simp add: cw algebra_simps)
  with sum_bound [OF x1 x2 x3 ab(1) w0] show ?thesis by (simp only:)
qed
lemma round_near:
  fixes z t m :: real
  assumes "\<bar>t - m\<bar> \<le> 1 / 8589934592" "t \<le> 2097152" "1 / 2 \<le> t"
    and "\<bar>z - t\<bar> \<le> \<bar>t\<bar> / 9007199254740992"
  shows "\<bar>z - m\<bar> < 1 / 2"
  using assms by linarith

lemma half_le:
  fixes l q r :: real
  assumes "l \<le> q" and "q / 2 \<le> r"
  shows "l / 2 \<le> r"
  using assms by linarith

lemma twice_le:
  fixes h q r :: real
  assumes "q \<le> h" and "r \<le> 2 * q"
  shows "r \<le> 2 * h"
  using assms by linarith

lemma fdiv_Fin:
  assumes "x \<noteq> 0" and "y \<noteq> 0"
  shows "fdiv (Fin x) (Fin y) = round_to binary64 (x / y)"
  using assms by (simp add: fdiv_def is_zero_def is_inf_def)

lemma fmul_Fin:
  assumes "x \<noteq> 0" and "y \<noteq> 0"
  shows "fmul (Fin x) (Fin y) = round_to binary64 (x * y)"
  using assms by (simp add: fmul_def is_zero_def is_inf_def)

lemma of_shape_small:
  assumes "n \<le> 2 ^ 20"
  shows "of_shape n = Fin (of_nat n)"
proof -
  have "(2::nat) ^ 20 < 2 ^ 53" by simp
  with assms have "n < 2 ^ 53" by (rule le_less_trans)
  then show ?thesis by (rule of_shape_exact)
qed

lemma real_of_small:
  fixes m :: nat
  assumes "1 \<le> m" and "m \<le> 2 ^ 20"
  shows "(1::real) \<le> of_nat m" and "(of_nat m :: real) \<le> 1048576"
proof -
  from assms(1) show "(1::real) \<le> of_nat m" by simp
  from assms(2) have "m \<le> 1048576" by simp
  then show "(of_nat m :: real) \<le> 1048576" by linarith
qed

lemma new_shape_axis_pos:
  assumes "fround (fmul (of_shape n) z) = Fin (of_nat m)" and "1 \<le> m"
  shows "1 \<le> n"
proof (rule ccontr)
  assume "\<not> 1 \<le> n"
  then have n: "of_shape n = Fin 0" by (simp add: of_shape_def round_to_def)
  have "fround (fmul (Fin 0) z) \<in> {NaN, Fin 0, NZero}"
    by (cases z) (simp_all add: fmul_def is_zero_def is_inf_def fzero_def finf_def np_round_def)
  with assms show False unfolding n by auto
qed

lemma axis_factor:
  fixes m n :: nat
  assumes m: "1 \<le> m" "m \<le> 2 ^ 20" and n: "1 \<le> n" "n \<le> 2 ^ 20"
  shows "\<exists>r. fdiv (Fin (of_nat m)) (of_shape n) = Fin r
     \<and> \<bar>r - of_nat m / of_nat n\<bar> \<le> (of_nat m / of_nat n) / 9007199254740992"
proof -
  note mr = real_of_small [OF m] and nr = real_of_small [OF n]
  have lo: "2 powi 0 \<le> (of_nat m :: real)" "2 powi 0 \<le> (of_nat n :: real)"
    using mr nr by simp_all
  have hi: "(of_nat m :: real) \<le> 2 powi 20" "(of_nat n :: real) \<le> 2 powi 20"
    using mr nr by simp_all
  note q = quotient_range [OF lo(1) hi(1) lo(2) hi(2)]
  note b = binary64_range [OF q]
  have "\<exists>y. round_to binary64 (of_nat m / of_nat n) = Fin y
      \<and> \<bar>y - of_nat m / of_nat n\<bar> \<le> \<bar>of_nat m / of_nat n :: real\<bar> / 2 ^ 53"
    by (rule round64_rel [OF b]) simp_all
  moreover have "fdiv (Fin (of_nat m)) (of_shape n) = round_to binary64 (of_nat m / of_nat n)"
    unfolding of_shape_small [OF n(2)] using m n by (intro fdiv_Fin) simp_all
  ultimately show ?thesis by simp
qed

lemma axis_zoom:
  fixes m n :: nat
  assumes m: "1 \<le> m" "m \<le> 2 ^ 20" and n: "1 \<le> n" "n \<le> 2 ^ 20"
    and r: "\<bar>r - of_nat m / of_nat n\<bar> \<le> (of_nat m / of_nat n) / 9007199254740992"
  shows "int_of_float (fmul (of_shape n) (Fin r)) = Inr (int m)"
proof -
  note mr = real_of_small [OF m] and nr = real_of_small [OF n]
  define t :: real where "t = of_nat n * r"
  from mr nr have q: "(0::real) < of_nat m / of_nat n" by simp
  note rb = rel_bounds [OF q r]
  have "of_nat n * \<bar>r - of_nat m / of_nat n\<bar>
      \<le> of_nat n * ((of_nat m / of_nat n) / 9007199254740992)"
    using r by (intro mult_left_mono) simp_all
  moreover have "of_nat n * \<bar>r - of_nat m / of_nat n\<bar> = \<bar>of_nat n * (r - of_nat m / of_nat n)\<bar>"
    by (simp add: abs_mult)
  moreover have "of_nat n * (r - of_nat m / of_nat n) = t - of_nat m"
    using n by (simp add: algebra_simps t_def)
  moreover have "of_nat n * ((of_nat m / of_nat n) / 9007199254740992)
      = (of_nat m :: real) / 9007199254740992"
    using n by simp
  ultimately have tm: "\<bar>t - of_nat m\<bar> \<le> of_nat m / 9007199254740992" by simp
  note nb = near_bounds [OF mr tm]
  have "2 powi (- 1) \<le> t" "t \<le> 2 powi 21"
    using nb by simp_all
  then have b: "2 powi (- 1022) \<le> \<bar>t\<bar>" "\<bar>t\<bar> \<le> 2 powi 1023"
    by (rule binary64_range, simp, simp)+
  from round64_rel [OF b] obtain z where
    z: "round_to binary64 t = Fin z" "\<bar>z - t\<bar> \<le> \<bar>t\<bar> / 2 ^ 53"
    by blast
  from z(2) have "\<bar>z - t\<bar> \<le> \<bar>t\<bar> / 9007199254740992" by simp
  with nb have "\<bar>z - of_nat m\<bar> < 1 / 2" by (rule round_near)
  then have "\<bar>z - of_int (int m)\<bar> < 1 / 2" by simp
  then have "np_round z = int m" by (rule np_round_unique)
  moreover have "fmul (of_shape n) (Fin r) = round_to binary64 t"
    unfolding of_shape_small [OF n(2)] t_def using n rb(3) by (intro fmul_Fin) simp_all
  ultimately show ?thesis by (simp add: z(1))
qed

lemma axis_spacing:
  fixes m n :: nat
  assumes m: "1 \<le> m" "m \<le> 2 ^ 20" and n: "1 \<le> n" "n \<le> 2 ^ 20"
    and r: "\<bar>r - of_nat m / of_nat n\<bar> \<le> (of_nat m / of_nat n) / 9007199254740992"
    and s: "2 powi (- 126) \<le> s" "s \<le> 2 powi 127"
  shows "\<exists>c a. round_to binary32 s = Fin c \<and> fdiv (Fin c) (Fin r) = Fin a
     \<and> \<bar>of_nat m * a - of_nat n * s\<bar> \<le> a"
proof -
  note mr = real_of_small [OF m] and nr = real_of_small [OF n]
  have "0 < (2::real) powi (- 126)" by (rule zero_less_power_int) simp
  with s have s0: "0 < s" by linarith
  then have sa: "2 powi (- 126) \<le> \<bar>s\<bar>" "\<bar>s\<bar> \<le> 2 powi 127"
    using s by simp_all
  from round32_rel [OF sa] obtain c where
    c: "round_to binary32 s = Fin c" "\<bar>c - s\<bar> \<le> \<bar>s\<bar> / 2 ^ 24"
    by blast
  from c(2) s0 have c1: "\<bar>c - s\<bar> \<le> s / 16777216" by simp
  note cb = rel_bounds32 [OF s0 c1]
  have "(2::real) powi (- 127) = 2 powi (- 126) / 2"
    using power_int_diff [of "2::real" "- 126" 1] by simp
  with s cb have cr: "2 powi (- 127) \<le> c"
    by linarith
  have "(2::real) powi 128 = 2 powi 127 * 2"
    using power_int_add [of "2::real" 127 1] by simp
  with s cb have cr2: "c \<le> 2 powi 128"
    by linarith
  have lo: "2 powi 0 \<le> (of_nat m :: real)" "2 powi 0 \<le> (of_nat n :: real)"
    using mr nr by simp_all
  have hi: "(of_nat m :: real) \<le> 2 powi 20" "(of_nat n :: real) \<le> 2 powi 20"
    using mr nr by simp_all
  note q = quotient_range [OF lo(1) hi(1) lo(2) hi(2)]
  from mr nr have q0: "(0::real) < of_nat m / of_nat n" by simp
  note rb = rel_bounds [OF q0 r]
  have "(2::real) powi (- 21) = 2 powi (0 - 20) / 2"
    using power_int_diff [of "2::real" "- 20" 1] by simp
  with half_le [OF q(1) rb(1)] have rr: "2 powi (- 21) \<le> r" by (simp only:)
  have "(2::real) powi 21 = 2 * 2 powi (20 - 0)"
    using power_int_add [of "2::real" 20 1] by simp
  with twice_le [OF q(2) rb(2)] have rr2: "r \<le> 2 powi 21" by (simp only:)
  note w = quotient_range [OF cr cr2 rr rr2]
  have b: "2 powi (- 1022) \<le> \<bar>c / r\<bar>" "\<bar>c / r\<bar> \<le> 2 powi 1023"
    by (rule binary64_range [OF w], simp, simp)+
  from round64_rel [OF b] obtain a where
    a: "round_to binary64 (c / r) = Fin a" "\<bar>a - c / r\<bar> \<le> \<bar>c / r\<bar> / 2 ^ 53"
    by blast
  from cb(4) rb(3) have "0 < c / r" by simp
  with a(2) have a1: "\<bar>a - c / r\<bar> \<le> (c / r) / 9007199254740992" by simp
  have "fdiv (Fin c) (Fin r) = round_to binary64 (c / r)"
    using cb(4) rb(3) by (intro fdiv_Fin) simp_all
  with a(1) have f: "fdiv (Fin c) (Fin r) = Fin a" by simp
  have "\<bar>of_nat m * a - of_nat n * s\<bar> \<le> a"
    by (rule extent_bound [OF s0 c1 mr nr(1) r a1])
  with c(1) f show ?thesis by blast
qed
lemma new_shape_axes:
  "new_shape (n0, n1, n2) (s0, s1, s2) (t0, t1, t2) =
     (fround (fmul (of_shape n0) (fdiv (round_to binary32 s0) (round_to binary64 t0))),
      fround (fmul (of_shape n1) (fdiv (round_to binary32 s1) (round_to binary64 t1))),
      fround (fmul (of_shape n2) (fdiv (round_to binary32 s2) (round_to binary64 t2))))"
  by (simp add: new_shape_def scan_spacing_def Let_def)

lemma new_shape_pos:
  assumes "new_shape (n0, n1, n2) (s0, s1, s2) (t0, t1, t2)
      = (Fin (of_nat m0), Fin (of_nat m1), Fin (of_nat m2))"
    and "1 \<le> m0" "1 \<le> m1" "1 \<le> m2"
  shows "1 \<le> n0" and "1 \<le> n1" and "1 \<le> n2"
proof -
  from assms(1) have
    f: "fround (fmul (of_shape n0) (fdiv (round_to binary32 s0) (round_to binary64 t0)))
          = Fin (of_nat m0)"
      "fround (fmul (of_shape n1) (fdiv (round_to binary32 s1) (round_to binary64 t1)))
          = Fin (of_nat m1)"
      "fround (fmul (of_shape n2) (fdiv (round_to binary32 s2) (round_to binary64 t2)))
          = Fin (of_nat m2)"
    unfolding new_shape_axes by simp_all
  show "1 \<le> n0" by (rule new_shape_axis_pos [OF f(1) assms(2)])
  show "1 \<le> n1" by (rule new_shape_axis_pos [OF f(2) assms(3)])
  show "1 \<le> n2" by (rule new_shape_axis_pos [OF f(3) assms(4)])
qed

lemma resample_factors:
  assumes ns: "new_shape (n0, n1, n2) (s0, s1, s2) (t0, t1, t2)
      = (Fin (of_nat m0), Fin (of_nat m1), Fin (of_nat m2))"
    and r: "fdiv (Fin (of_nat m0)) (of_shape n0) = Fin r0"
      "fdiv (Fin (of_nat m1)) (of_shape n1) = Fin r1"
      "fdiv (Fin (of_nat m2)) (of_shape n2) = Fin r2"
    and z: "int_of_float (fmul (of_shape n0) (Fin r0)) = Inr (int m0)"
      "int_of_float (fmul (of_shape n1) (Fin r1)) = Inr (int m1)"
      "int_of_float (fmul (of_shape n2) (Fin r2)) = Inr (int m2)"
  shows "resample (n0, n1, n2) (s0, s1, s2) (t0, t1, t2) =
     Inr ((m0, m1, m2),
          (fdiv (round_to binary32 s0) (Fin r0), fdiv (round_to binary32 s1) (Fin r1),
           fdiv (round_to binary32 s2) (Fin r2)))"
proof -
  have g: "new_geometry (n0, n1, n2) (s0, s1, s2) (t0, t1, t2) =
     ((Fin r0, Fin r1, Fin r2),
      (fdiv (round_to binary32 s0) (Fin r0), fdiv (round_to binary32 s1) (Fin r1),
       fdiv (round_to binary32 s2) (Fin r2)))"
    unfolding new_geometry_def ns scan_spacing_def Let_def map3.simps zip3.simps r ..
  have zs: "zoom_shape (n0, n1, n2) (Fin r0, Fin r1, Fin r2) = Inr (m0, m1, m2)"
    unfolding zoom_shape.simps z by simp
  show ?thesis
    unfolding resample_def g Let_def prod.case zs sum.case ..
qed

lemma resample_regular:
  assumes ns: "new_shape (n0, n1, n2) (s0, s1, s2) (t0, t1, t2)
      = (Fin (of_nat m0), Fin (of_nat m1), Fin (of_nat m2))"
    and m: "1 \<le> m0" "1 \<le> m1" "1 \<le> m2" "m0 \<le> 2 ^ 20" "m1 \<le> 2 ^ 20" "m2 \<le> 2 ^ 20"
    and n: "n0 \<le> 2 ^ 20" "n1 \<le> 2 ^ 20" "n2 \<le> 2 ^ 20"
  shows "resample (n0, n1, n2) (s0, s1, s2) (t0, t1, t2) =
     Inr ((m0, m1, m2),
          (fdiv (round_to binary32 s0) (fdiv (Fin (of_nat m0)) (Fin (of_nat n0))),
           fdiv (round_to binary32 s1) (fdiv (Fin (of_nat m1)) (Fin (of_nat n1))),
           fdiv (round_to binary32 s2) (fdiv (Fin (of_nat m2)) (Fin (of_nat n2)))))"
proof -
  note p = new_shape_pos [OF ns m(1-3)]
  from axis_factor [OF m(1) m(4) p(1) n(1)] obtain r0 where
    r0: "fdiv (Fin (of_nat m0)) (of_shape n0) = Fin r0"
      "\<bar>r0 - of_nat m0 / of_nat n0\<bar> \<le> (of_nat m0 / of_nat n0) / 9007199254740992"
    by blast
  from axis_factor [OF m(2) m(5) p(2) n(2)] obtain r1 where
    r1: "fdiv (Fin (of_nat m1)) (of_shape n1) = Fin r1"
      "\<bar>r1 - of_nat m1 / of_nat n1\<bar> \<le> (of_nat m1 / of_nat n1) / 9007199254740992"
    by blast
  from axis_factor [OF m(3) m(6) p(3) n(3)] obtain r2 where
    r2: "fdiv (Fin (of_nat m2)) (of_shape n2) = Fin r2"
      "\<bar>r2 - of_nat m2 / of_nat n2\<bar> \<le> (of_nat m2 / of_nat n2) / 9007199254740992"
    by blast
  note z0 = axis_zoom [OF m(1) m(4) p(1) n(1) r0(2)]
  note z1 = axis_zoom [OF m(2) m(5) p(2) n(2) r1(2)]
  note z2 = axis_zoom [OF m(3) m(6) p(3) n(3) r2(2)]
  note e = r0(1) [unfolded of_shape_small [OF n(1)]] r1(1) [unfolded of_shape_small [OF n(2)]]
    r2(1) [unfolded of_shape_small [OF n(3)]]
  show ?thesis
    unfolding e by (rule resample_factors [OF ns r0(1) r1(1) r2(1) z0 z1 z2])
qed

lemma axis_extent:
  fixes m n :: nat
  assumes m: "1 \<le> m" "m \<le> 2 ^ 20" and n: "1 \<le> n" "n \<le> 2 ^ 20"
    and s: "2 powi (- 126) \<le> s" "s \<le> 2 powi 127"
  shows "\<exists>a. fdiv (round_to binary32 s) (fdiv (Fin (of_nat m)) (Fin (of_nat n))) = Fin a
     \<and> extent_preserved m (Fin a) n s"
proof -
  from axis_factor [OF m n] obtain r where
    r: "fdiv (Fin (of_nat m)) (of_shape n) = Fin r"
      "\<bar>r - of_nat m / of_nat n\<bar> \<le> (of_nat m / of_nat n) / 9007199254740992"
    by blast
  from axis_spacing [OF m n r(2) s] obtain c a where
    a: "round_to binary32 s = Fin c" "fdiv (Fin c) (Fin r) = Fin a"
      "\<bar>of_nat m * a - of_nat n * s\<bar> \<le> a"
    by blast
  from r(1) have "fdiv (Fin (of_nat m)) (Fin (of_nat n)) = Fin r"
    unfolding of_shape_small [OF n(2)] .
  with a show ?thesis by simp
qed

text \<open>
  Claim C3, as stated (for every shape and all strictly positive spacings the achieved
  spacing keeps the physical extent within one voxel width), fails where the new shape
  rounds to zero: a volume of one slice with spacing 0.25 resampled to spacing 1 gets
  \<open>new_shape = round(0.25) = 0\<close>, \<open>real_resize_factor = 0\<close> and the achieved spacing
  \<open>0.25 / 0\<close>, an infinity, for which the bound does not hold
  (\<open>0 * inf\<close> is NaN, and no comparison with NaN is true).
\<close>

theorem resample_extent_counterexample:
  "resample (1, 1, 1) (1 / 4, 1, 1) (1, 1, 1) = Inr ((0, 1, 1), (PInf, Fin 1, Fin 1))
   \<and> \<not> extent_preserved 0 PInf 1 (1 / 4)"
proof
  show "resample (1, 1, 1) (1 / 4, 1, 1) (1, 1, 1) = Inr ((0, 1, 1), (PInf, Fin 1, Fin 1))"
    by (simp add: resample_def new_geometry_def new_shape_def scan_spacing_def of_shape_def
        float_eval)
  show "\<not> extent_preserved 0 PInf 1 (1 / 4)"
    by simp
qed

text \<open>
  Claim C3, amended. Let the spacing of the scan lie, along each axis, in the range of the
  normal float32 numbers (\<open>2 ^ -126\<close> to \<open>2 ^ 127\<close>; line 100 stores it as float32), let
  the shape of the image be at most \<open>2 ^ 20\<close> along each axis, and let \<open>new_shape\<close>, the
  rounded product of the shape and \<open>spacing / new_spacing\<close> computed at lines 103 to 107,
  be between 1 and \<open>2 ^ 20\<close> along each axis. Then \<open>resample\<close> returns an image of shape
  \<open>new_shape\<close> and the achieved spacing \<open>spacing / (new_shape / shape)\<close>, a finite float64
  number, and along each axis
  \<open>|new_shape * achieved_spacing - old_shape * original_spacing| \<le> achieved_spacing\<close>,
  the original spacing being the one read from the scan, the arithmetic of the bound
  exact.
\<close>

theorem resample_extent_preserved:
  assumes "2 powi (- 126) \<le> s0" "s0 \<le> 2 powi 127"
    and "2 powi (- 126) \<le> s1" "s1 \<le> 2 powi 127"
    and "2 powi (- 126) \<le> s2" "s2 \<le> 2 powi 127"
    and "new_shape (n0, n1, n2) (s0, s1, s2) (t0, t1, t2)
      = (Fin (of_nat m0), Fin (of_nat m1), Fin (of_nat m2))"
    and "1 \<le> m0" "1 \<le> m1" "1 \<le> m2" "m0 \<le> 2 ^ 20" "m1 \<le> 2 ^ 20" "m2 \<le> 2 ^ 20"
    and "n0 \<le> 2 ^ 20" "n1 \<le> 2 ^ 20" "n2 \<le> 2 ^ 20"
  shows "\<exists>a0 a1 a2.
     resample (n0, n1, n2) (s0, s1, s2) (t0, t1, t2)
       = Inr ((m0, m1, m2), (Fin a0, Fin a1, Fin a2))
     \<and> Fin a0 = fdiv (round_to binary32 s0) (fdiv (Fin (of_nat m0)) (Fin (of_nat n0)))
     \<and> Fin a1 = fdiv (round_to binary32 s1) (fdiv (Fin (of_nat m1)) (Fin (of_nat n1)))
     \<and> Fin a2 = fdiv (round_to binary32 s2) (fdiv (Fin (of_nat m2)) (Fin (of_nat n2)))
     \<and> extent_preserved m0 (Fin a0) n0 s0
     \<and> extent_preserved m1 (Fin a1) n1 s1
     \<and> extent_preserved m2 (Fin a2) n2 s2"
proof -
  note p = new_shape_pos [OF assms(7) assms(8-10)]
  note r = resample_regular [OF assms(7-16)]
  from axis_extent [OF assms(8) assms(11) p(1) assms(14) assms(1,2)] obtain a0 where
    a0: "fdiv (round_to binary32 s0) (fdiv (Fin (of_nat m0)) (Fin (of_nat n0))) = Fin a0"
      "extent_preserved m0 (Fin a0) n0 s0"
    by blast
  from axis_extent [OF assms(9) assms(12) p(2) assms(15) assms(3,4)] obtain a1 where
    a1: "fdiv (round_to binary32 s1) (fdiv (Fin (of_nat m1)) (Fin (of_nat n1))) = Fin a1"
      "extent_preserved m1 (Fin a1) n1 s1"
    by blast
  from axis_extent [OF assms(10) assms(13) p(3) assms(16) assms(5,6)] obtain a2 where
    a2: "fdiv (round_to binary32 s2) (fdiv (Fin (of_nat m2)) (Fin (of_nat n2))) = Fin a2"
      "extent_preserved m2 (Fin a2) n2 s2"
    by blast
  from r have "resample (n0, n1, n2) (s0, s1, s2) (t0, t1, t2)
       = Inr ((m0, m1, m2), (Fin a0, Fin a1, Fin a2))"
    unfolding a0(1) a1(1) a2(1) .
  with a0 a1 a2 show ?thesis
    by (intro exI [of _ a0] exI [of _ a1] exI [of _ a2]) simp
qed
theorem resample_extent_preserved_witness:
  "new_shape (2, 5, 5) (5 / 2, 7 / 10, 7 / 10) (1, 1, 1) = (Fin 5, Fin 3, Fin 3)
   \<and> (\<exists>a0 a1 a2.
     resample (2, 5, 5) (5 / 2, 7 / 10, 7 / 10) (1, 1, 1)
       = Inr ((5, 3, 3), (Fin a0, Fin a1, Fin a2))
     \<and> extent_preserved 5 (Fin a0) 2 (5 / 2)
     \<and> extent_preserved 3 (Fin a1) 5 (7 / 10)
     \<and> extent_preserved 3 (Fin a2) 5 (7 / 10))"
proof -
  have ns: "new_shape (2, 5, 5) (5 / 2, 7 / 10, 7 / 10) (1, 1, 1)
      = (Fin (of_nat 5), Fin (of_nat 3), Fin (of_nat 3))"
    by (simp add: new_shape_def scan_spacing_def of_shape_def float_eval)
  have s: "2 powi (- 126) \<le> (5 / 2 :: real)" "(5 / 2 :: real) \<le> 2 powi 127"
    "2 powi (- 126) \<le> (7 / 10 :: real)" "(7 / 10 :: real) \<le> 2 powi 127"
    by simp_all
  have b: "(1::nat) \<le> 5" "(1::nat) \<le> 3" "(5::nat) \<le> 2 ^ 20" "(3::nat) \<le> 2 ^ 20"
    "(2::nat) \<le> 2 ^ 20"
    by simp_all
  from resample_extent_preserved
    [OF s(1) s(2) s(3) s(4) s(3) s(4) ns b(1) b(2) b(2) b(3) b(4) b(4) b(5) b(3) b(3)]
  have "\<exists>a0 a1 a2.
     resample (2, 5, 5) (5 / 2, 7 / 10, 7 / 10) (1, 1, 1)
       = Inr ((5, 3, 3), (Fin a0, Fin a1, Fin a2))
     \<and> extent_preserved 5 (Fin a0) 2 (5 / 2)
     \<and> extent_preserved 3 (Fin a1) 5 (7 / 10)
     \<and> extent_preserved 3 (Fin a2) 5 (7 / 10)"
    by blast
  moreover from ns have "new_shape (2, 5, 5) (5 / 2, 7 / 10, 7 / 10) (1, 1, 1)
      = (Fin 5, Fin 3, Fin 3)"
    by simp
  ultimately show ?thesis by (rule conjI [rotated])
qed

text \<open>
  Claim C7, as stated (a spacing component that is not positive makes \<open>resample\<close> fail
  with a spacing error), fails: with original and target spacing -1 along every axis the
  function returns a volume of the same shape and the achieved spacing -1.
\<close>

theorem resample_nonpositive_counterexample:
  "resample (2, 2, 2) (- 1, - 1, - 1) (- 1, - 1, - 1)
     = Inr ((2, 2, 2), (Fin (- 1), Fin (- 1), Fin (- 1)))"
  by (simp add: resample_def new_geometry_def new_shape_def scan_spacing_def of_shape_def
      float_eval)

text \<open>
  Claim C7, amended. \<open>resample\<close> does not check its spacings and raises no spacing error.
  Whether it returns depends on \<open>new_shape\<close> alone, the rounded product of the shape and
  \<open>spacing / new_spacing\<close> computed at lines 103 to 107: whenever \<open>new_shape\<close> is between
  1 and \<open>2 ^ 20\<close> along each axis and the shape of the image is at most \<open>2 ^ 20\<close> along
  each axis (as it is for an original and a target spacing that are both negative),
  \<open>resample\<close> returns an image of shape \<open>new_shape\<close> together with the spacing
  \<open>spacing / (new_shape / shape)\<close>, whatever the signs of the spacings.
\<close>

theorem resample_no_spacing_check:
  assumes "new_shape (n0, n1, n2) (s0, s1, s2) (t0, t1, t2)
      = (Fin (of_nat m0), Fin (of_nat m1), Fin (of_nat m2))"
    and "1 \<le> m0" "1 \<le> m1" "1 \<le> m2" "m0 \<le> 2 ^ 20" "m1 \<le> 2 ^ 20" "m2 \<le> 2 ^ 20"
    and "n0 \<le> 2 ^ 20" "n1 \<le> 2 ^ 20" "n2 \<le> 2 ^ 20"
  shows "resample (n0, n1, n2) (s0, s1, s2) (t0, t1, t2) =
     Inr ((m0, m1, m2),
          (fdiv (round_to binary32 s0) (fdiv (Fin (of_nat m0)) (Fin (of_nat n0))),
           fdiv (round_to binary32 s1) (fdiv (Fin (of_nat m1)) (Fin (of_nat n1))),
           fdiv (round_to binary32 s2) (fdiv (Fin (of_nat m2)) (Fin (of_nat n2)))))"
  using assms by (rule resample_regular)

theorem resample_no_spacing_check_witness:
  "new_shape (2, 3, 4) (- 1, - 5 / 2, - 7 / 10) (- 1, - 1, - 1) = (Fin 2, Fin 8, Fin 3)
   \<and> resample (2, 3, 4) (- 1, - 5 / 2, - 7 / 10) (- 1, - 1, - 1) =
     Inr ((2, 8, 3),
          (fdiv (round_to binary32 (- 1)) (fdiv (Fin 2) (Fin 2)),
           fdiv (round_to binary32 (- 5 / 2)) (fdiv (Fin 8) (Fin 3)),
           fdiv (round_to binary32 (- 7 / 10)) (fdiv (Fin 3) (Fin 4))))"
proof -
  have ns: "new_shape (2, 3, 4) (- 1, - 5 / 2, - 7 / 10) (- 1, - 1, - 1)
      = (Fin (of_nat 2), Fin (of_nat 8), Fin (of_nat 3))"
    by (simp add: new_shape_def scan_spacing_def of_shape_def float_eval)
  have b: "(1::nat) \<le> 2" "(1::nat) \<le> 8" "(1::nat) \<le> 3"
    "(2::nat) \<le> 2 ^ 20" "(8::nat) \<le> 2 ^ 20" "(3::nat) \<le> 2 ^ 20" "(4::nat) \<le> 2 ^ 20"
    by simp_all
  from resample_no_spacing_check [OF ns b(1) b(2) b(3) b(4) b(5) b(6) b(4) b(6) b(7)] ns
  show ?thesis by simp
qed

section \<open>Properties of the volume operations\<close>

lemma set_indices: "set (indices sh) = {p. inb sh p}"
proof -
  obtain nz ny nx where sh: "sh = (nz, ny, nx)" by (cases sh)
  show ?thesis
  proof (rule set_eqI)
    fix p :: idx
    obtain z y x where p: "p = (z, y, x)" by (cases p)
    have "(z, y, x) \<in> set (indices (nz, ny, nx)) \<longleftrightarrow>
      (\<exists>a \<in> {0..<nz}. \<exists>b \<in> {0..<ny}. \<exists>c \<in> {0..<nx}. (z, y, x) = (int a, int b, int c))"
      by (simp add: image_iff)
    also have "\<dots> \<longleftrightarrow>
      (\<exists>a < nz. \<exists>b < ny. \<exists>c < nx. z = int a \<and> y = int b \<and> x = int c)"
      by (simp add: Bex_def) blast
    also have "\<dots> \<longleftrightarrow> inb (nz, ny, nx) (z, y, x)"
    proof
      assume "\<exists>a < nz. \<exists>b < ny. \<exists>c < nx. z = int a \<and> y = int b \<and> x = int c"
      then show "inb (nz, ny, nx) (z, y, x)" by auto
    next
      assume i: "inb (nz, ny, nx) (z, y, x)"
      then have "nat z < nz" "nat y < ny" "nat x < nx" "z = int (nat z)" "y = int (nat y)"
        "x = int (nat x)"
        by auto
      then show "\<exists>a < nz. \<exists>b < ny. \<exists>c < nx. z = int a \<and> y = int b \<and> x = int c"
        by blast
    qed
    finally show "p \<in> set (indices sh) \<longleftrightarrow> p \<in> {p. inb sh p}"
      by (simp add: p sh)
  qed
qed

lemma in_indices [simp]: "p \<in> set (indices sh) \<longleftrightarrow> inb sh p"
  by (simp add: set_indices)

lemma shape_amap [simp]: "shape (amap f a) = shape a"
  by (simp add: amap_def)

lemma vox_amap [simp]: "vox (amap f a) p = f (vox a p)"
  by (simp add: amap_def)

lemma shape_set_where [simp]: "shape (set_where cond v a) = shape a"
  by (simp add: set_where_def)

lemma vox_set_where:
  "vox (set_where cond v a) p = (if inb (shape a) p \<and> cond p then v else vox a p)"
  by (simp add: set_where_def)

lemma shape_measure_label [simp]: "shape (measure_label n c bg a) = shape a"
  by (simp add: measure_label_def)

lemma shape_binary_dilation [simp]: "shape (binary_dilation k a) = shape a"
  by (simp add: binary_dilation_def)

lemma shape_binary_erosion [simp]: "shape (binary_erosion k a) = shape a"
  by (simp add: binary_erosion_def)

lemma adjacent_iff:
  "(p, q) \<in> adjacent a c \<longleftrightarrow>
     inb (shape a) p \<and> inb (shape a) q \<and> nbr c p q \<and> vox a p = vox a q"
  by (auto simp: adjacent_def)

lemma nbr_sym: "nbr c p q \<Longrightarrow> nbr c q p"
  by (cases p, cases q) (auto simp: abs_minus_commute)

lemma sym_adjacent: "sym (adjacent a c)"
  by (rule symI) (auto simp: adjacent_iff dest: nbr_sym)

lemma same_component_refl [simp]: "same_component a c p p"
  by (simp add: same_component_def)

lemma same_component_sym: "same_component a c p q \<Longrightarrow> same_component a c q p"
  unfolding same_component_def using sym_rtrancl [OF sym_adjacent, of a c]
  by (auto dest: symD)

lemma same_component_trans:
  "same_component a c p q \<Longrightarrow> same_component a c q r \<Longrightarrow> same_component a c p r"
  unfolding same_component_def by (rule rtrancl_trans)

lemma same_component_vox: "same_component a c p q \<Longrightarrow> vox a p = vox a q"
  unfolding same_component_def
  by (induction rule: rtrancl_induct) (auto simp: adjacent_iff)

lemma same_component_inb:
  "same_component a c p q \<Longrightarrow> inb (shape a) p \<Longrightarrow> inb (shape a) q"
  unfolding same_component_def
  by (induction rule: rtrancl_induct) (auto simp: adjacent_iff)

lemma component_root_props:
  assumes "inb (shape a) p"
  shows "inb (shape a) (component_root a c p)"
    and "same_component a c p (component_root a c p)"
proof -
  let ?f = "filter (same_component a c p) (indices (shape a))"
  from assms have "\<exists>x \<in> set (indices (shape a)). same_component a c p x"
    by (intro bexI [of _ p]) simp_all
  then have "?f \<noteq> []" by (simp add: filter_empty_conv)
  then have "hd ?f \<in> set ?f" by (rule hd_in_set)
  then show "inb (shape a) (component_root a c p)"
    and "same_component a c p (component_root a c p)"
    by (simp_all add: component_root_def)
qed

lemma component_root_eq:
  assumes "same_component a c p q"
  shows "component_root a c p = component_root a c q"
proof -
  have "same_component a c p = same_component a c q"
  proof (rule ext)
    fix r
    show "same_component a c p r = same_component a c q r"
      using assms by (blast intro: same_component_trans same_component_sym)
  qed
  then show ?thesis by (simp add: component_root_def)
qed

lemma is_root_root:
  assumes "inb (shape a) p" and "vox a p \<noteq> bg"
  shows "is_root a c bg (component_root a c p)"
proof -
  note r = component_root_props [OF assms(1), of c]
  from r(2) have "vox a (component_root a c p) = vox a p"
    by (rule same_component_vox [symmetric])
  moreover from r(2) have "component_root a c (component_root a c p) = component_root a c p"
    by (rule component_root_eq [symmetric])
  ultimately show ?thesis using assms(2) by (simp add: is_root_def)
qed

lemma count_before_inj:
  "x \<in> set ps \<Longrightarrow> y \<in> set ps \<Longrightarrow> P x \<Longrightarrow> P y \<Longrightarrow>
   length (filter P (takeWhile (\<lambda>q. q \<noteq> x) ps))
     = length (filter P (takeWhile (\<lambda>q. q \<noteq> y) ps)) \<Longrightarrow> x = y"
proof (induction ps)
  case Nil
  then show ?case by simp
next
  case (Cons a ps)
  show ?case
  proof (rule ccontr)
    assume ne: "x \<noteq> y"
    show False
    proof (cases "a = x")
      case True
      with ne Cons.prems(3,5) show False by simp
    next
      case ax: False
      show False
      proof (cases "a = y")
        case True
        with ne Cons.prems(4,5) show False by simp
      next
        case ay: False
        from ax ay Cons.prems(1,2) have mem: "x \<in> set ps" "y \<in> set ps"
          by simp_all
        from ax ay Cons.prems(5)
        have "length (filter P (takeWhile (\<lambda>q. q \<noteq> x) ps))
              = length (filter P (takeWhile (\<lambda>q. q \<noteq> y) ps))"
          by (cases "P a") simp_all
        with Cons.IH [OF mem Cons.prems(3,4)] ne show False by simp
      qed
    qed
  qed
qed

lemma label_of_background: "vox a p = bg \<Longrightarrow> label_of a c bg p = 0"
  by (simp add: label_of_def)

lemma label_of_positive: "vox a p \<noteq> bg \<Longrightarrow> 1 \<le> label_of a c bg p"
  by (simp add: label_of_def)

lemma label_of_same_component:
  assumes "same_component a c p q"
  shows "label_of a c bg p = label_of a c bg q"
  using same_component_vox [OF assms] component_root_eq [OF assms]
  by (simp add: label_of_def)

lemma label_of_eq_imp:
  assumes "inb (shape a) p" and "inb (shape a) q" and "vox a p \<noteq> bg" and "vox a q \<noteq> bg"
    and "label_of a c bg p = label_of a c bg q"
  shows "same_component a c p q"
proof -
  let ?rp = "component_root a c p" and ?rq = "component_root a c q"
  note rp = component_root_props [OF assms(1), of c]
  note rq = component_root_props [OF assms(2), of c]
  from assms(3-5) have len: "length (filter (is_root a c bg)
      (takeWhile (\<lambda>r. r \<noteq> ?rp) (indices (shape a))))
    = length (filter (is_root a c bg) (takeWhile (\<lambda>r. r \<noteq> ?rq) (indices (shape a))))"
    by (simp add: label_of_def)
  have mem: "?rp \<in> set (indices (shape a))" "?rq \<in> set (indices (shape a))"
    using rp(1) rq(1) by simp_all
  have roots: "is_root a c bg ?rp" "is_root a c bg ?rq"
    using assms(1-4) by (simp_all add: is_root_root)
  have "?rp = ?rq"
    by (rule count_before_inj [where P = "is_root a c bg", OF mem roots len])
  with rp(2) rq(2) show ?thesis
    by (metis same_component_sym same_component_trans)
qed

lemma label_of_eq_iff:
  assumes "inb (shape a) p" and "inb (shape a) q" and "vox a p \<noteq> bg" and "vox a q \<noteq> bg"
  shows "label_of a c bg p = label_of a c bg q \<longleftrightarrow> same_component a c p q"
  using label_of_eq_imp [OF assms] label_of_same_component by blast

lemma walk_x:
  assumes "1 \<le> c"
    and "\<forall>x'. 0 \<le> x' \<and> x' \<le> int n \<longrightarrow> inb (shape a) (z, y, x') \<and> vox a (z, y, x') = v"
  shows "same_component a c (z, y, int n) (z, y, 0)"
  using assms(2)
proof (induction n)
  case 0
  then show ?case by simp
next
  case (Suc n)
  then have "((z, y, int (Suc n)), (z, y, int n)) \<in> adjacent a c"
    using assms(1) by (simp add: adjacent_iff)
  then have "same_component a c (z, y, int (Suc n)) (z, y, int n)"
    by (simp add: same_component_def)
  moreover from Suc have "same_component a c (z, y, int n) (z, y, 0)"
    by simp
  ultimately show ?case by (rule same_component_trans)
qed

lemma walk_y:
  assumes "1 \<le> c"
    and "\<forall>y'. 0 \<le> y' \<and> y' \<le> int n \<longrightarrow> inb (shape a) (z, y', x) \<and> vox a (z, y', x) = v"
  shows "same_component a c (z, int n, x) (z, 0, x)"
  using assms(2)
proof (induction n)
  case 0
  then show ?case by simp
next
  case (Suc n)
  then have "((z, int (Suc n), x), (z, int n, x)) \<in> adjacent a c"
    using assms(1) by (simp add: adjacent_iff)
  then have "same_component a c (z, int (Suc n), x) (z, int n, x)"
    by (simp add: same_component_def)
  moreover from Suc have "same_component a c (z, int n, x) (z, 0, x)"
    by simp
  ultimately show ?case by (rule same_component_trans)
qed

lemma walk_z:
  assumes "1 \<le> c"
    and "\<forall>z'. 0 \<le> z' \<and> z' \<le> int n \<longrightarrow> inb (shape a) (z', y, x) \<and> vox a (z', y, x) = v"
  shows "same_component a c (int n, y, x) (0, y, x)"
  using assms(2)
proof (induction n)
  case 0
  then show ?case by simp
next
  case (Suc n)
  then have "((int (Suc n), y, x), (int n, y, x)) \<in> adjacent a c"
    using assms(1) by (simp add: adjacent_iff)
  then have "same_component a c (int (Suc n), y, x) (int n, y, x)"
    by (simp add: same_component_def)
  moreover from Suc have "same_component a c (int n, y, x) (0, y, x)"
    by simp
  ultimately show ?case by (rule same_component_trans)
qed

section \<open>Properties of segment\_lung\_mask\<close>

lemma structure_offsets_5: "set (structure_offsets 5) = {- 2..2}"
  unfolding structure_offsets_def set_upto by simp

lemma zero_in_structure_offsets: "0 < k \<Longrightarrow> 0 \<in> set (structure_offsets k)"
  unfolding structure_offsets_def set_upto by simp

lemma vox_binary_dilation:
  "vox (binary_dilation k a) (z, y, x) \<longleftrightarrow>
     (\<exists>dz \<in> set (structure_offsets k). \<exists>dy \<in> set (structure_offsets k).
      \<exists>dx \<in> set (structure_offsets k).
        inb (shape a) (z - dz, y - dy, x - dx) \<and> vox a (z - dz, y - dy, x - dx))"
  by (simp add: binary_dilation_def)

lemma vox_binary_erosion:
  "vox (binary_erosion k a) (z, y, x) \<longleftrightarrow>
     (\<forall>dz \<in> set (structure_offsets k). \<forall>dy \<in> set (structure_offsets k).
      \<forall>dx \<in> set (structure_offsets k).
        inb (shape a) (z + dz, y + dy, x + dx) \<and> vox a (z + dz, y + dy, x + dx))"
  by (simp add: binary_erosion_def)

lemma dilation_extensive:
  assumes "0 < k" and "inb (shape a) p" and "vox a p"
  shows "vox (binary_dilation k a) p"
proof -
  obtain z y x where p: "p = (z, y, x)" by (cases p)
  from assms(1) have 0: "0 \<in> set (structure_offsets k)"
    by (rule zero_in_structure_offsets)
  have "inb (shape a) (z - 0, y - 0, x - 0) \<and> vox a (z - 0, y - 0, x - 0)"
    using assms(2,3) by (simp add: p)
  with 0 show ?thesis
    unfolding p vox_binary_dilation by blast
qed

lemma dilation_of_empty:
  assumes "\<forall>p. inb (shape a) p \<longrightarrow> \<not> vox a p"
  shows "\<not> vox (binary_dilation k a) p"
proof -
  obtain z y x where p: "p = (z, y, x)" by (cases p)
  show ?thesis unfolding p vox_binary_dilation using assms by blast
qed

lemma closing_of_full:
  assumes "\<forall>p. inb (shape m) p \<longrightarrow> vox m p"
  shows "vox (binary_closing 5 m) p \<longleftrightarrow> interior (shape m) p"
proof -
  obtain z y x where p: "p = (z, y, x)" by (cases p)
  obtain nz ny nx where sh: "shape m = (nz, ny, nx)" by (cases "shape m")
  have dil: "vox (binary_dilation 5 m) q" if "inb (shape m) q" for q
  proof -
    from that assms have "vox m q" by blast
    with that show ?thesis by (intro dilation_extensive) simp_all
  qed
  show ?thesis
  proof
    assume "vox (binary_closing 5 m) p"
    then have all: "\<forall>dz \<in> {- 2..2}. \<forall>dy \<in> {- 2..2}. \<forall>dx \<in> {- 2..2}.
        inb (shape m) (z + dz, y + dy, x + dx)"
      unfolding p binary_closing_def vox_binary_erosion structure_offsets_5
      by simp
    have mem: "(- 2 :: int) \<in> {- 2..2}" "(2 :: int) \<in> {- 2..2}"
      by simp_all
    have "inb (shape m) (z + (- 2), y + (- 2), x + (- 2))"
      "inb (shape m) (z + 2, y + 2, x + 2)"
      using all mem by blast+
    then show "interior (shape m) p"
      by (simp add: p sh)
  next
    assume "interior (shape m) p"
    then have "inb (shape m) (z + dz, y + dy, x + dx)"
      if "dz \<in> {- 2..2}" "dy \<in> {- 2..2}" "dx \<in> {- 2..2}" for dz dy dx
      using that by (simp add: p sh)
    then show "vox (binary_closing 5 m) p"
      unfolding p binary_closing_def vox_binary_erosion structure_offsets_5
      using dil by simp
  qed
qed

lemma shape_close_sinuses [simp]: "shape (close_sinuses img) = shape img"
  by (simp add: close_sinuses_def binary_closing_def Let_def)

lemma close_sinuses_tissue:
  assumes "\<forall>p. inb (shape img) p \<longrightarrow> - 320 < vox img p"
  shows "vox (close_sinuses img) p = (if interior (shape img) p then 2 else 1)"
proof -
  let ?m = "amap (\<lambda>v. v \<noteq> 0) (amap (\<lambda>v. if - 320 < v then 1 else (0::int)) img)"
  have "\<forall>p. inb (shape ?m) p \<longrightarrow> vox ?m p"
    using assms by simp
  then have "vox (binary_closing 5 ?m) p \<longleftrightarrow> interior (shape ?m) p"
    by (rule closing_of_full)
  then show ?thesis
    by (simp add: close_sinuses_def Let_def)
qed

lemma line_x:
  assumes "1 \<le> c" and "shape a = (nz, ny, nx)" and "inb (shape a) (z, y, x)"
    and "\<forall>x'. 0 \<le> x' \<and> x' \<le> x \<longrightarrow> vox a (z, y, x') = v"
  shows "same_component a c (z, y, x) (z, y, 0)"
proof -
  from assms(2,3) have x: "x = int (nat x)" by simp
  have "\<forall>x'. 0 \<le> x' \<and> x' \<le> int (nat x) \<longrightarrow>
      inb (shape a) (z, y, x') \<and> vox a (z, y, x') = v"
    using assms(2-4) by auto
  with assms(1) have "same_component a c (z, y, int (nat x)) (z, y, 0)"
    by (rule walk_x)
  with x show ?thesis by simp
qed

lemma line_y:
  assumes "1 \<le> c" and "shape a = (nz, ny, nx)" and "inb (shape a) (z, y, x)"
    and "\<forall>y'. 0 \<le> y' \<and> y' \<le> y \<longrightarrow> vox a (z, y', x) = v"
  shows "same_component a c (z, y, x) (z, 0, x)"
proof -
  from assms(2,3) have y: "y = int (nat y)" by simp
  have "\<forall>y'. 0 \<le> y' \<and> y' \<le> int (nat y) \<longrightarrow>
      inb (shape a) (z, y', x) \<and> vox a (z, y', x) = v"
    using assms(2-4) by auto
  with assms(1) have "same_component a c (z, int (nat y), x) (z, 0, x)"
    by (rule walk_y)
  with y show ?thesis by simp
qed

lemma line_z:
  assumes "1 \<le> c" and "shape a = (nz, ny, nx)" and "inb (shape a) (z, y, x)"
    and "\<forall>z'. 0 \<le> z' \<and> z' \<le> z \<longrightarrow> vox a (z', y, x) = v"
  shows "same_component a c (z, y, x) (0, y, x)"
proof -
  from assms(2,3) have z: "z = int (nat z)" by simp
  have "\<forall>z'. 0 \<le> z' \<and> z' \<le> int (nat z) \<longrightarrow>
      inb (shape a) (z', y, x) \<and> vox a (z', y, x) = v"
    using assms(2-4) by auto
  with assms(1) have "same_component a c (int (nat z), y, x) (0, y, x)"
    by (rule walk_z)
  with z show ?thesis by simp
qed

lemma box_connected:
  assumes "1 \<le> c" and "shape a = (nz, ny, nx)" and "inb (shape a) (z, y, x)"
    and "\<forall>p. inb (shape a) p \<longrightarrow> vox a p = v"
  shows "same_component a c (z, y, x) (0, 0, 0)"
proof -
  from assms(2,3) have i: "inb (shape a) (z, y, 0)" "inb (shape a) (z, 0, 0)"
    by simp_all
  have 1: "same_component a c (z, y, x) (z, y, 0)"
    using assms(1-3) by (rule line_x [where v = v]) (use assms(2-4) in auto)
  have 2: "same_component a c (z, y, 0) (z, 0, 0)"
    using assms(1,2) i(1) by (rule line_y [where v = v]) (use assms(2-4) in auto)
  have 3: "same_component a c (z, 0, 0) (0, 0, 0)"
    using assms(1,2) i(2) by (rule line_z [where v = v]) (use assms(2-4) in auto)
  from 1 2 3 show ?thesis
    by (blast intro: same_component_trans)
qed

lemma shell_connected:
  assumes sh: "shape a = (nz, ny, nx)"
    and vals: "\<forall>p. vox a p = (if interior (shape a) p then 2 else 1)"
    and p: "inb (shape a) (z, y, x)" "\<not> interior (shape a) (z, y, x)"
  shows "same_component a 1 (z, y, x) (0, 0, 0)"
proof -
  have one: "(1::nat) \<le> 1" by simp
  have v: "vox a q = 1" if "\<not> interior (shape a) q" for q
    using vals [rule_format, of q] that by simp
  have face_x: "same_component a 1 (z', y', 0) (0, 0, 0)" if "inb (shape a) (z', y', 0)" for z' y'
  proof -
    from that sh have i: "inb (shape a) (z', 0, 0)" by simp
    have "same_component a 1 (z', y', 0) (z', 0, 0)"
      using one sh that by (rule line_y [where v = 1]) (simp add: v sh)
    moreover have "same_component a 1 (z', 0, 0) (0, 0, 0)"
      using one sh i by (rule line_z [where v = 1]) (simp add: v sh)
    ultimately show ?thesis by (rule same_component_trans)
  qed
  have face_y: "same_component a 1 (z', 0, x') (0, 0, 0)" if "inb (shape a) (z', 0, x')" for z' x'
  proof -
    from that sh have i: "inb (shape a) (z', 0, 0)" by simp
    have "same_component a 1 (z', 0, x') (z', 0, 0)"
      using one sh that by (rule line_x [where v = 1]) (simp add: v sh)
    moreover have "same_component a 1 (z', 0, 0) (0, 0, 0)"
      using one sh i by (rule line_z [where v = 1]) (simp add: v sh)
    ultimately show ?thesis by (rule same_component_trans)
  qed
  from p sh consider (zb) "z < 2 \<or> int nz \<le> z + 2" | (yb) "y < 2 \<or> int ny \<le> y + 2"
    | (xb) "x < 2 \<or> int nx \<le> x + 2"
    by auto
  then show ?thesis
  proof cases
    case zb
    from p(1) sh have i: "inb (shape a) (z, y, 0)" by simp
    have "same_component a 1 (z, y, x) (z, y, 0)"
      using one sh p(1) by (rule line_x [where v = 1]) (use zb in \<open>auto simp: v sh\<close>)
    then show ?thesis using face_x [OF i] by (rule same_component_trans)
  next
    case yb
    from p(1) sh have i: "inb (shape a) (z, y, 0)" by simp
    have "same_component a 1 (z, y, x) (z, y, 0)"
      using one sh p(1) by (rule line_x [where v = 1]) (use yb in \<open>auto simp: v sh\<close>)
    then show ?thesis using face_x [OF i] by (rule same_component_trans)
  next
    case xb
    from p(1) sh have i: "inb (shape a) (z, 0, x)" by simp
    have "same_component a 1 (z, y, x) (z, 0, x)"
      using one sh p(1) by (rule line_y [where v = 1]) (use xb in \<open>auto simp: v sh\<close>)
    then show ?thesis using face_y [OF i] by (rule same_component_trans)
  qed
qed

lemma vox_measure_label:
  "vox (measure_label n (Some c) bg a) p = label_of a c bg p"
  "vox (measure_label n None bg a) p = label_of a n bg p"
  by (simp_all add: measure_label_def)

lemma fill_outside_air_tissue:
  assumes sh: "shape img = (nz, ny, nx)" and pos: "0 < nz" "0 < ny" "0 < nx"
    and tissue: "\<forall>p. inb (shape img) p \<longrightarrow> - 320 < vox img p"
  shows "\<exists>b. fill_outside_air (close_sinuses img) = Inr b \<and> shape b = shape img
     \<and> (\<forall>p. inb (shape img) p \<longrightarrow> vox b p = 2)"
proof -
  let ?a = "close_sinuses img"
  let ?labels = "measure_label 3 (Some 1) 0 ?a"
  let ?b = "set_where (\<lambda>p. vox ?labels (0, 0, 0) = vox ?labels p) 2 ?a"
  have sha: "shape ?a = (nz, ny, nx)" by (simp add: sh)
  have vals: "\<forall>p. vox ?a p = (if interior (shape ?a) p then 2 else 1)"
    using close_sinuses_tissue [OF tissue] by simp
  from pos have origin: "inb (shape ?labels) (0, 0, 0)"
    by (simp add: sh)
  then have res: "fill_outside_air ?a = Inr ?b"
    by (simp add: fill_outside_air_def Let_def)
  have "vox ?b p = 2" if p: "inb (shape img) p" for p
  proof (cases "interior (shape ?a) p")
    case True
    with vals [rule_format, of p] show ?thesis
      by (simp add: vox_set_where)
  next
    case False
    obtain z y x where pz: "p = (z, y, x)" by (cases p)
    from p have "inb (shape ?a) (z, y, x)" by (simp add: pz)
    then have "same_component ?a 1 (z, y, x) (0, 0, 0)"
      using False unfolding pz by (rule shell_connected [OF sha vals])
    then have "label_of ?a 1 0 p = label_of ?a 1 0 (0, 0, 0)"
      unfolding pz by (rule label_of_same_component)
    with p show ?thesis
      by (simp add: vox_set_where vox_measure_label)
  qed
  with res show ?thesis by simp
qed

lemma shape_take_slice: "shape b = (nz, ny, nx) \<Longrightarrow> shape (take_slice b i) = (1, ny, nx)"
  by (simp add: take_slice_def)

lemma vox_take_slice: "vox (take_slice b i) (z, y, x) = vox b (int i, y, x)"
  by (cases "shape b") (simp add: take_slice_def)

lemma fill_slice_full:
  assumes sh: "shape b = (nz, ny, nx)" and pos: "0 < ny" "0 < nx"
    and full: "\<forall>p. inb (shape b) p \<longrightarrow> vox b p = 2" and i: "i < nz"
  shows "shape (fill_slice b i) = shape b
     \<and> (\<forall>p. inb (shape b) p \<longrightarrow> vox (fill_slice b i) p = 2)"
proof -
  let ?axial = "amap (\<lambda>v. v - 1) (take_slice b i)"
  let ?labeling = "measure_label 2 None 0 ?axial"
  let ?L = "label_of ?axial 2 0 (0, 0, 0)"
  note sht = shape_take_slice [OF sh, of i]
  have sha: "shape ?axial = (1, ny, nx)"
    by (simp add: sht)
  have ones: "vox ?axial q = 1" if "inb (shape ?axial) q" for q
  proof -
    obtain z y x where q: "q = (z, y, x)" by (cases q)
    from that i have "inb (shape b) (int i, y, x)"
      by (simp add: sht sh q)
    with full have "vox b (int i, y, x) = 2" by blast
    then show ?thesis by (simp add: vox_take_slice q)
  qed
  have two: "(1::nat) \<le> 2" by simp
  have lab: "label_of ?axial 2 0 q = ?L" if "inb (shape ?axial) q" for q
  proof -
    obtain z y x where q: "q = (z, y, x)" by (cases q)
    have "same_component ?axial 2 (z, y, x) (0, 0, 0)"
      using two sha that [unfolded q] by (rule box_connected [where v = 1]) (use ones in blast)
    then show ?thesis unfolding q by (rule label_of_same_component)
  qed
  from pos have origin: "inb (shape ?axial) (0, 0, 0)"
    by (simp add: sht)
  with ones have "vox ?axial (0, 0, 0) \<noteq> 0" by simp
  then have L: "?L \<noteq> 0"
    using label_of_positive [of ?axial "(0, 0, 0)" 0 2] by simp
  have rav: "set (ravel ?labeling) = {?L}"
  proof
    show "set (ravel ?labeling) \<subseteq> {?L}"
      using lab by (auto simp: ravel_def vox_measure_label)
    from origin have "?L \<in> set (ravel ?labeling)"
      by (auto simp: ravel_def vox_measure_label intro!: image_eqI [where x = "(0, 0, 0)"])
    then show "{?L} \<subseteq> set (ravel ?labeling)" by simp
  qed
  have "largest_label_volume (ravel ?labeling) 0 = Some ?L"
  proof (cases "largest_label_volume (ravel ?labeling) 0")
    case None
    then have "\<forall>x \<in> set (ravel ?labeling). x = 0"
      by (simp add: largest_label_volume_None_iff)
    with rav L show ?thesis by simp
  next
    case (Some l)
    then have "l \<in> set (ravel ?labeling)"
      by (rule largest_label_volume_Some(1))
    with rav Some show ?thesis by simp
  qed
  then have f: "fill_slice b i =
      set_where (\<lambda>(z, y, x). z = int i \<and> vox ?labeling (0, y, x) \<noteq> ?L) 1 b"
    by (simp add: fill_slice_def Let_def)
  have "vox (fill_slice b i) p = 2" if p: "inb (shape b) p" for p
  proof -
    obtain z y x where pz: "p = (z, y, x)" by (cases p)
    from p have "inb (shape ?axial) (0, y, x)"
      by (simp add: sht sh pz)
    then have "vox ?labeling (0, y, x) = ?L"
      by (simp add: vox_measure_label lab)
    with full p show ?thesis
      by (simp add: f vox_set_where pz)
  qed
  then show ?thesis by (simp add: f)
qed

lemma fill_slices_full:
  assumes sh: "shape b = (nz, ny, nx)" and pos: "0 < ny" "0 < nx"
    and full: "\<forall>p. inb (shape b) p \<longrightarrow> vox b p = 2" and "\<forall>i \<in> set is. i < nz"
  shows "shape (foldl fill_slice b is) = shape b
     \<and> (\<forall>p. inb (shape b) p \<longrightarrow> vox (foldl fill_slice b is) p = 2)"
  using sh full assms(5)
proof (induction "is" arbitrary: b)
  case Nil
  then show ?case by simp
next
  case (Cons i "is")
  from Cons.prems have i: "i < nz" by simp
  note step = fill_slice_full [OF Cons.prems(1) pos Cons.prems(2) i]
  from step Cons.prems(1) have sh': "shape (fill_slice b i) = (nz, ny, nx)"
    by simp
  from step have full': "\<forall>p. inb (shape (fill_slice b i)) p \<longrightarrow> vox (fill_slice b i) p = 2"
    by simp
  from Cons.prems(3) have rest: "\<forall>i \<in> set is. i < nz" by simp
  from Cons.IH [OF sh' full' rest] step show ?case by simp
qed

lemma fill_structures_full:
  assumes sh: "shape b = (nz, ny, nx)" and pos: "0 < ny" "0 < nx"
    and full: "\<forall>p. inb (shape b) p \<longrightarrow> vox b p = 2"
  shows "shape (fill_structures f b) = shape b
     \<and> (\<forall>p. inb (shape b) p \<longrightarrow> vox (fill_structures f b) p = 2)"
proof (cases f)
  case True
  have "\<forall>i \<in> set [0..<nz]. i < nz" by simp
  from fill_slices_full [OF sh pos full this] True sh show ?thesis
    by (simp add: fill_structures_def)
next
  case False
  with full show ?thesis by (simp add: fill_structures_def)
qed

lemma remove_air_pockets_empty:
  assumes "\<forall>p. inb (shape b) p \<longrightarrow> vox b p = 0"
  shows "remove_air_pockets b = b"
proof -
  have "\<forall>x \<in> set (ravel (measure_label 3 None 0 b)). x = 0"
    using assms by (auto simp: ravel_def vox_measure_label label_of_background)
  then have "largest_label_volume (ravel (measure_label 3 None 0 b)) 0 = None"
    by (simp add: largest_label_volume_None_iff)
  then show ?thesis by (simp add: remove_air_pockets_def Let_def)
qed

lemma lung_candidate_tissue:
  assumes sh: "shape img = (nz, ny, nx)" and pos: "0 < nz" "0 < ny" "0 < nx"
    and tissue: "\<forall>p. inb (shape img) p \<longrightarrow> - 320 < vox img p"
  shows "\<exists>c. lung_candidate img f = Inr c \<and> shape c = shape img
     \<and> (\<forall>p. inb (shape img) p \<longrightarrow> vox c p = 0)"
proof -
  from fill_outside_air_tissue [OF assms] obtain b where
    b: "fill_outside_air (close_sinuses img) = Inr b" "shape b = shape img"
      "\<forall>p. inb (shape img) p \<longrightarrow> vox b p = 2"
    by blast
  from b(2) sh have shb: "shape b = (nz, ny, nx)" by simp
  from b(2,3) have fullb: "\<forall>p. inb (shape b) p \<longrightarrow> vox b p = 2" by simp
  note fs = fill_structures_full [OF shb pos(2,3) fullb, of f]
  let ?c = "lungs_to_one (fill_structures f b)"
  have shc: "shape ?c = shape img"
    using fs b(2) by (simp add: lungs_to_one_def)
  have zero: "\<forall>p. inb (shape ?c) p \<longrightarrow> vox ?c p = 0"
    using fs b(2) by (simp add: lungs_to_one_def)
  then have "remove_air_pockets ?c = ?c"
    by (rule remove_air_pockets_empty)
  with b(1) have "lung_candidate img f = Inr ?c"
    by (simp add: lung_candidate_def)
  with shc zero show ?thesis by simp
qed

lemma segment_lung_mask_tissue:
  assumes sh: "shape img = (nz, ny, nx)" and pos: "0 < nz" "0 < ny" "0 < nx"
    and tissue: "\<forall>p. inb (shape img) p \<longrightarrow> - 320 < vox img p"
  shows "\<exists>mask. segment_lung_mask img f = Inr mask \<and> shape mask = shape img
     \<and> (\<forall>p. \<not> vox mask p)"
proof -
  from lung_candidate_tissue [OF assms] obtain c where
    c: "lung_candidate img f = Inr c" "shape c = shape img"
      "\<forall>p. inb (shape img) p \<longrightarrow> vox c p = 0"
    by blast
  let ?m = "amap (\<lambda>v. v \<noteq> 0) c"
  from c(2,3) have "\<forall>p. inb (shape ?m) p \<longrightarrow> \<not> vox ?m p" by simp
  then have "\<not> vox (binary_dilation 10 ?m) p" for p
    by (rule dilation_of_empty)
  with c(1,2) show ?thesis
    by (simp add: segment_lung_mask_def)
qed

section \<open>The lung segmenter: claims\<close>

text \<open>
  Claim C4, as stated (for every volume whose voxels are all greater than -320 the
  function returns an all-false mask and raises no error), fails for a volume without
  voxels: every voxel of an array of shape \<open>(0, 3, 3)\<close> is greater than -320, there being
  none, and reading \<open>labels[0, 0, 0]\<close> at line 194 raises IndexError, with and without
  \<open>fill_lung_structures\<close>.
\<close>

theorem segment_lung_mask_empty_counterexample:
  "segment_lung_mask \<lparr>shape = (0, 3, 3), vox = (\<lambda>p. 40)\<rparr> True = Inl IndexError
   \<and> segment_lung_mask \<lparr>shape = (0, 3, 3), vox = (\<lambda>p. 40)\<rparr> False = Inl IndexError"
  by (simp add: segment_lung_mask_def lung_candidate_def fill_outside_air_def Let_def)

text \<open>
  Claim C4, amended. For every input volume with at least one voxel (no dimension is 0)
  in which every voxel is greater than -320, \<open>segment_lung_mask\<close> returns, without an
  error, a mask of the shape of the input in which no voxel is set. (The closing leaves a
  border of 0 around the volume, which is labelled as the outside air; everything becomes
  2, hence 0 after the inversion.)
\<close>

theorem segment_lung_mask_all_tissue:
  assumes "shape img = (nz, ny, nx)" and "0 < nz" and "0 < ny" and "0 < nx"
    and "\<forall>p. inb (shape img) p \<longrightarrow> - 320 < vox img p"
  shows "\<exists>msk. segment_lung_mask img fill_lung_structures = Inr msk
     \<and> shape msk = shape img \<and> (\<forall>p. \<not> vox msk p)"
  using assms by (rule segment_lung_mask_tissue)

theorem segment_lung_mask_all_tissue_witness:
  "\<exists>msk. segment_lung_mask \<lparr>shape = (6, 7, 8), vox = (\<lambda>p. 40)\<rparr> True = Inr msk
     \<and> shape msk = (6, 7, 8) \<and> \<not> vox msk (3, 3, 3)"
proof -
  let ?img = "\<lparr>shape = (6, 7, 8), vox = (\<lambda>p. 40)\<rparr> :: int ndarray"
  have "\<exists>msk. segment_lung_mask ?img True = Inr msk
     \<and> shape msk = shape ?img \<and> (\<forall>p. \<not> vox msk p)"
    by (rule segment_lung_mask_all_tissue [of ?img 6 7 8]) simp_all
  then show ?thesis by auto
qed

lemma diagonal_adjacent:
  "((0, 0, 0), (0, 1, 1)) \<in>
     adjacent \<lparr>shape = (1, 2, 2), vox = (\<lambda>p. if p = (0, 0, 0) \<or> p = (0, 1, 1) then 1 else 0)\<rparr> 3"
  by (simp add: adjacent_iff)

lemma diagonal_not_face_connected:
  "\<not> same_component
       \<lparr>shape = (1, 2, 2), vox = (\<lambda>p. if p = (0, 0, 0) \<or> p = (0, 1, 1) then 1 else 0)\<rparr> 1
       (0, 0, 0) (0, 1, 1)"
proof
  let ?B = "\<lparr>shape = (1, 2, 2), vox = (\<lambda>p. if p = (0, 0, 0) \<or> p = (0, 1, 1) then 1 else 0)\<rparr>
    :: int ndarray"
  assume "same_component ?B 1 (0, 0, 0) (0, 1, 1)"
  then have "((0, 0, 0), (0, 1, 1)) \<in> (adjacent ?B 1)\<^sup>*"
    by (simp add: same_component_def)
  then obtain r where "((0, 0, 0), r) \<in> adjacent ?B 1"
    by (rule converse_rtranclE) simp_all
  then show False
    by (cases r) (auto simp: adjacent_iff split: if_splits)
qed

lemma vox_close_sinuses: "vox (close_sinuses img) p \<noteq> 0"
  by (simp add: close_sinuses_def Let_def)

lemma largest_label_seed:
  assumes p0: "inb (shape a) p0" "vox a p0 \<noteq> 0"
    and k: "k = (case c of None \<Rightarrow> n | Some j \<Rightarrow> j)"
  shows "\<exists>l s. largest_label_volume (ravel (measure_label n c 0 a)) 0 = Some l
     \<and> inb (shape a) s \<and> vox a s \<noteq> 0
     \<and> (\<forall>p. inb (shape a) p \<longrightarrow>
           (vox (measure_label n c 0 a) p = l \<longleftrightarrow> same_component a k s p))"
proof -
  let ?labels = "measure_label n c 0 a"
  have lab: "vox ?labels p = label_of a k 0 p" for p
    by (simp add: measure_label_def k)
  from p0(2) have "label_of a k 0 p0 \<noteq> 0"
    using label_of_positive [of a p0 0 k] by simp
  moreover from p0(1) have "label_of a k 0 p0 \<in> set (ravel ?labels)"
    by (auto simp: ravel_def lab intro!: image_eqI [where x = p0])
  ultimately have "largest_label_volume (ravel ?labels) 0 \<noteq> None"
    unfolding largest_label_volume_None_iff by blast
  then obtain l where l: "largest_label_volume (ravel ?labels) 0 = Some l"
    by blast
  note ll = largest_label_volume_Some(1,2) [OF l]
  from ll(1) obtain s where s: "inb (shape a) s" "label_of a k 0 s = l"
    by (auto simp: ravel_def lab)
  from s(2) ll(2) have vs: "vox a s \<noteq> 0"
    using label_of_background [of a s 0 k] by auto
  have "vox ?labels p = l \<longleftrightarrow> same_component a k s p" if p: "inb (shape a) p" for p
  proof (cases "vox a p = 0")
    case True
    then have "label_of a k 0 p = 0" by (rule label_of_background)
    with ll(2) have "vox ?labels p \<noteq> l" by (simp add: lab)
    moreover have "\<not> same_component a k s p"
      using same_component_vox [of a k s p] vs True by auto
    ultimately show ?thesis by simp
  next
    case False
    from label_of_eq_iff [OF s(1) p vs False, of k] s(2) show ?thesis
      by (auto simp: lab)
  qed
  with l s(1) vs show ?thesis by blast
qed

lemma fill_outside_air_component:
  assumes "fill_outside_air (close_sinuses img) = Inr r" and "inb (shape img) p"
  shows "vox r p =
     (if same_component (close_sinuses img) 1 (0, 0, 0) p then 2
      else vox (close_sinuses img) p)"
proof -
  let ?a = "close_sinuses img"
  let ?labels = "measure_label 3 (Some 1) 0 ?a"
  from assms(1) have o: "inb (shape img) (0, 0, 0)"
    and r: "r = set_where (\<lambda>p. vox ?labels (0, 0, 0) = vox ?labels p) 2 ?a"
    by (auto simp: fill_outside_air_def Let_def split: if_splits)
  have "label_of ?a 1 0 (0, 0, 0) = label_of ?a 1 0 p
      \<longleftrightarrow> same_component ?a 1 (0, 0, 0) p"
    by (rule label_of_eq_iff) (simp_all add: o assms(2) vox_close_sinuses)
  with assms(2) show ?thesis
    by (simp add: r vox_set_where vox_measure_label)
qed

lemma fill_slice_component:
  assumes sh: "shape b = (nz, ny, nx)" and i: "i < nz"
    and p0: "inb (shape b) (int i, y0, x0)" "vox b (int i, y0, x0) \<noteq> 1"
  shows "\<exists>sy sx. inb (shape b) (int i, sy, sx) \<and> vox b (int i, sy, sx) \<noteq> 1
     \<and> (\<forall>y x. inb (shape b) (int i, y, x) \<longrightarrow>
           vox (fill_slice b i) (int i, y, x) =
             (if same_component (amap (\<lambda>v. v - 1) (take_slice b i)) 2 (0, sy, sx) (0, y, x)
              then vox b (int i, y, x) else 1))"
proof -
  let ?axial = "amap (\<lambda>v. v - 1) (take_slice b i)"
  let ?labeling = "measure_label 2 None 0 ?axial"
  note sht = shape_take_slice [OF sh, of i]
  have sl: "inb (shape ?axial) (0, y, x) \<longleftrightarrow> inb (shape b) (int i, y, x)" for y x
    using i by (auto simp: sht sh)
  have q0: "inb (shape ?axial) (0, y0, x0)" "vox ?axial (0, y0, x0) \<noteq> 0"
    using p0 by (simp_all add: sl vox_take_slice del: shape_amap)
  have "\<exists>l s. largest_label_volume (ravel ?labeling) 0 = Some l
     \<and> inb (shape ?axial) s \<and> vox ?axial s \<noteq> 0
     \<and> (\<forall>p. inb (shape ?axial) p \<longrightarrow>
           (vox ?labeling p = l \<longleftrightarrow> same_component ?axial 2 s p))"
    by (rule largest_label_seed [OF q0]) simp
  then obtain l s where
    l: "largest_label_volume (ravel ?labeling) 0 = Some l"
    and s: "inb (shape ?axial) s" "vox ?axial s \<noteq> 0"
    and c: "\<forall>p. inb (shape ?axial) p \<longrightarrow> (vox ?labeling p = l \<longleftrightarrow> same_component ?axial 2 s p)"
    by blast
  obtain sz sy sx where sz: "s = (sz, sy, sx)" by (cases s)
  from s(1) have "sz = 0" by (simp add: sz sht)
  then have s0: "s = (0, sy, sx)" by (simp add: sz)
  from l have f: "fill_slice b i =
      set_where (\<lambda>(z, y, x). z = int i \<and> vox ?labeling (0, y, x) \<noteq> l) 1 b"
    by (simp add: fill_slice_def Let_def)
  have "vox (fill_slice b i) (int i, y, x) =
      (if same_component ?axial 2 (0, sy, sx) (0, y, x) then vox b (int i, y, x) else 1)"
    if p: "inb (shape b) (int i, y, x)" for y x
  proof -
    from p have "inb (shape ?axial) (0, y, x)" by (simp only: sl)
    with c have "vox ?labeling (0, y, x) = l \<longleftrightarrow> same_component ?axial 2 (0, sy, sx) (0, y, x)"
      unfolding s0 by blast
    with p show ?thesis
      by (simp add: f vox_set_where)
  qed
  moreover from s have "inb (shape b) (int i, sy, sx)" "vox b (int i, sy, sx) \<noteq> 1"
    unfolding s0 by (simp_all add: sl vox_take_slice del: shape_amap)
  ultimately show ?thesis by blast
qed

lemma remove_air_pockets_component:
  assumes "inb (shape b) p0" and "vox b p0 \<noteq> 0"
  shows "\<exists>s. inb (shape b) s \<and> vox b s \<noteq> 0
     \<and> (\<forall>p. inb (shape b) p \<longrightarrow>
           vox (remove_air_pockets b) p = (if same_component b 3 s p then vox b p else 0))"
proof -
  let ?labels = "measure_label 3 None 0 b"
  have "\<exists>l s. largest_label_volume (ravel ?labels) 0 = Some l
     \<and> inb (shape b) s \<and> vox b s \<noteq> 0
     \<and> (\<forall>p. inb (shape b) p \<longrightarrow>
           (vox ?labels p = l \<longleftrightarrow> same_component b 3 s p))"
    by (rule largest_label_seed [OF assms]) simp
  then obtain l s where
    l: "largest_label_volume (ravel ?labels) 0 = Some l"
    and s: "inb (shape b) s" "vox b s \<noteq> 0"
    and c: "\<forall>p. inb (shape b) p \<longrightarrow> (vox ?labels p = l \<longleftrightarrow> same_component b 3 s p)"
    by blast
  from l have f: "remove_air_pockets b = set_where (\<lambda>p. vox ?labels p \<noteq> l) 0 b"
    by (simp add: remove_air_pockets_def Let_def)
  have "vox (remove_air_pockets b) p = (if same_component b 3 s p then vox b p else 0)"
    if p: "inb (shape b) p" for p
  proof -
    from c p have "vox ?labels p = l \<longleftrightarrow> same_component b 3 s p" by blast
    with p show ?thesis by (simp add: f vox_set_where)
  qed
  with s show ?thesis by blast
qed

lemma diagonal_connected:
  "same_component
       \<lparr>shape = (1, 2, 2), vox = (\<lambda>p. if p = (0, 0, 0) \<or> p = (0, 1, 1) then 1 else 0)\<rparr> 3
       (0, 0, 0) (0, 1, 1)"
  unfolding same_component_def using diagonal_adjacent by (rule r_into_rtrancl)

lemma diagonal_kept:
  "vox (remove_air_pockets
          \<lparr>shape = (1, 2, 2), vox = (\<lambda>p. if p = (0, 0, 0) \<or> p = (0, 1, 1) then 1 else 0)\<rparr>)
       (0, 0, 0) = 1
   \<and> vox (remove_air_pockets
          \<lparr>shape = (1, 2, 2), vox = (\<lambda>p. if p = (0, 0, 0) \<or> p = (0, 1, 1) then 1 else 0)\<rparr>)
       (0, 1, 1) = 1"
proof -
  let ?B = "\<lparr>shape = (1, 2, 2), vox = (\<lambda>p. if p = (0, 0, 0) \<or> p = (0, 1, 1) then 1 else 0)\<rparr>
    :: int ndarray"
  have "inb (shape ?B) (0, 0, 0)" "vox ?B (0, 0, 0) \<noteq> 0" by simp_all
  from remove_air_pockets_component [OF this] obtain s where
    s: "inb (shape ?B) s" "vox ?B s \<noteq> 0"
    and c: "\<forall>p. inb (shape ?B) p \<longrightarrow>
       vox (remove_air_pockets ?B) p = (if same_component ?B 3 s p then vox ?B p else 0)"
    by blast
  from s(2) have "s = (0, 0, 0) \<or> s = (0, 1, 1)"
    by (simp split: if_splits)
  then have "same_component ?B 3 s (0, 0, 0) \<and> same_component ?B 3 s (0, 1, 1)"
    using diagonal_connected same_component_sym [OF diagonal_connected] by auto
  moreover have "inb (shape ?B) (0, 0, 0)" "inb (shape ?B) (0, 1, 1)" by simp_all
  ultimately show ?thesis using c by simp
qed





lemma length_filter_mono:
  "(\<And>x. x \<in> set xs \<Longrightarrow> P x \<Longrightarrow> Q x) \<Longrightarrow> length (filter P xs) \<le> length (filter Q xs)"
  by (induction xs) auto

lemma count_positive_dilation:
  assumes "0 < k"
  shows "count_positive a \<le> count_positive (binary_dilation k a)"
  unfolding count_positive_def shape_binary_dilation
  by (rule length_filter_mono) (simp add: dilation_extensive [OF assms])

text \<open>
  Claim C6. The dilation with the cube of 10 never clears a voxel: every set voxel of a
  mask is set in its dilation, so the number of set voxels does not decrease; in
  particular the mask \<open>segment_lung_mask\<close> returns contains every voxel of the candidate
  region it dilates.
\<close>

theorem dilation_superset:
  "(\<forall>p. inb (shape msk) p \<and> vox msk p \<longrightarrow> vox (binary_dilation 10 msk) p)
   \<and> count_positive msk \<le> count_positive (binary_dilation 10 msk)
   \<and> (lung_candidate img f = Inr candidate \<longrightarrow>
        (\<exists>dilated. segment_lung_mask img f = Inr dilated
           \<and> shape dilated = shape candidate
           \<and> (\<forall>p. inb (shape candidate) p \<and> vox candidate p \<noteq> 0 \<longrightarrow> vox dilated p)
           \<and> count_positive (amap (\<lambda>v. v \<noteq> 0) candidate) \<le> count_positive dilated))"
proof (intro conjI impI)
  show "\<forall>p. inb (shape msk) p \<and> vox msk p \<longrightarrow> vox (binary_dilation 10 msk) p"
    by (simp add: dilation_extensive)
  show "count_positive msk \<le> count_positive (binary_dilation 10 msk)"
    by (rule count_positive_dilation) simp
  assume c: "lung_candidate img f = Inr candidate"
  let ?m = "amap (\<lambda>v. v \<noteq> 0) candidate"
  have "segment_lung_mask img f = Inr (binary_dilation 10 ?m)"
    using c by (simp add: segment_lung_mask_def)
  moreover have "shape (binary_dilation 10 ?m) = shape candidate"
    by simp
  moreover have "\<forall>p. inb (shape candidate) p \<and> vox candidate p \<noteq> 0
      \<longrightarrow> vox (binary_dilation 10 ?m) p"
    by (simp add: dilation_extensive)
  moreover have "count_positive ?m \<le> count_positive (binary_dilation 10 ?m)"
    by (rule count_positive_dilation) simp
  ultimately show "\<exists>dilated. segment_lung_mask img f = Inr dilated
           \<and> shape dilated = shape candidate
           \<and> (\<forall>p. inb (shape candidate) p \<and> vox candidate p \<noteq> 0 \<longrightarrow> vox dilated p)
           \<and> count_positive (amap (\<lambda>v. v \<noteq> 0) candidate) \<le> count_positive dilated"
    by blast
qed

theorem dilation_superset_witness:
  "vox (binary_dilation 10 \<lparr>shape = (1, 1, 2), vox = (\<lambda>p. p = (0, 0, 0))\<rparr>) (0, 0, 0)
   \<and> (\<exists>dilated. segment_lung_mask \<lparr>shape = (1, 1, 1), vox = (\<lambda>p. 0)\<rparr> True = Inr dilated)"
proof -
  let ?m = "\<lparr>shape = (1, 1, 2), vox = (\<lambda>p. p = (0, 0, 0))\<rparr> :: bool ndarray"
  let ?img = "\<lparr>shape = (1, 1, 1), vox = (\<lambda>p. 0)\<rparr> :: int ndarray"
  have "\<exists>c. lung_candidate ?img True = Inr c \<and> shape c = shape ?img
     \<and> (\<forall>p. inb (shape ?img) p \<longrightarrow> vox c p = 0)"
    by (rule lung_candidate_tissue [of ?img 1 1 1]) simp_all
  then obtain c where c: "lung_candidate ?img True = Inr c"
    by blast
  note d = dilation_superset [of ?m ?img True c]
  have m: "inb (shape ?m) (0, 0, 0) \<and> vox ?m (0, 0, 0)"
    by simp
  from d m have "vox (binary_dilation 10 ?m) (0, 0, 0)"
    by blast
  moreover from d c have "\<exists>dilated. segment_lung_mask ?img True = Inr dilated"
    by blast
  ultimately show ?thesis by blast
qed

end
